theory Spec2Isabelle
  imports Main "HOL-Library.Sublist"
begin

section \<open>RenameExtension: recursive renaming of a file extension\<close>

text \<open>
  A shallow embedding of \<^verbatim>\<open>RenameExtension.py\<close>: the three functions
  \<^verbatim>\<open>normalize_ext\<close>, \<^verbatim>\<open>safe_rename\<close> and \<^verbatim>\<open>rename_extensions\<close>, together with the
  parts of Python's \<^verbatim>\<open>str\<close>, \<^verbatim>\<open>os.path\<close> and \<^verbatim>\<open>os\<close> they call. The Tkinter
  front end (\<^verbatim>\<open>browse_dir\<close>, \<^verbatim>\<open>run\<close>, the widget set-up) is not modelled.
\<close>

subsection \<open>Strings\<close>

text \<open>
  A Python \<^verbatim>\<open>str\<close> is a \<^typ>\<open>string\<close>, and a character is its code point: the strings
  of the model are the Python strings of code points below 256. On these
  \<^verbatim>\<open>str.isspace\<close> holds for the code points 9 to 13, 28 to 32, 133 and 160, and
  \<^verbatim>\<open>str.lower\<close> works character by character: it adds 32 to the code points 65 to 90,
  192 to 214 and 216 to 222 and leaves every other character as it is. Beyond code point
  255 \<^verbatim>\<open>str.lower\<close> is no longer a map over the characters (it turns U+0130 into
  two characters and lower-cases a capital sigma by its context); the section on file
  names beyond Latin-1 treats such strings, as lists of code points, and the tests on
  prefixes and suffixes and the slice are written for lists of any kind.
\<close>

definition isspace :: "char \<Rightarrow> bool" where
  "isspace c =
     (let n = (of_char c :: nat)
      in (9 \<le> n \<and> n \<le> 13) \<or> (28 \<le> n \<and> n \<le> 32) \<or> n = 133 \<or> n = 160)"

definition isupper :: "char \<Rightarrow> bool" where
  "isupper c =
     (let n = (of_char c :: nat)
      in (65 \<le> n \<and> n \<le> 90) \<or> (192 \<le> n \<and> n \<le> 214) \<or> (216 \<le> n \<and> n \<le> 222))"

definition lower_char :: "char \<Rightarrow> char" where
  "lower_char c = (if isupper c then char_of (of_char c + (32 :: nat)) else c)"

text \<open>\<^verbatim>\<open>s.lower()\<close>\<close>

definition lower :: "string \<Rightarrow> string" where
  "lower s = map lower_char s"

text \<open>\<^verbatim>\<open>s.strip()\<close>: leading and trailing white space removed.\<close>

definition strip :: "string \<Rightarrow> string" where
  "strip s = rev (dropWhile isspace (rev (dropWhile isspace s)))"

text \<open>\<^verbatim>\<open>s.startswith(pre)\<close> and \<^verbatim>\<open>s.endswith(suf)\<close>\<close>

definition startswith :: "'a list \<Rightarrow> 'a list \<Rightarrow> bool" where
  "startswith s pre = (take (length pre) s = pre)"

definition endswith :: "'a list \<Rightarrow> 'a list \<Rightarrow> bool" where
  "endswith s suf = (length suf \<le> length s \<and> drop (length s - length suf) s = suf)"

text \<open>
  The slice \<^verbatim>\<open>s[:-n]\<close> for \<open>n \<ge> 0\<close>. Python reads \<^verbatim>\<open>s[:-0]\<close> as \<^verbatim>\<open>s[:0]\<close>, the empty
  string; an \<open>n\<close> beyond the length also gives the empty string.
\<close>

definition py_drop_last :: "nat \<Rightarrow> 'a list \<Rightarrow> 'a list" where
  "py_drop_last n s = (if n = 0 then [] else take (length s - n) s)"

subsection \<open>The extension normalizer\<close>

text \<open>
  \<^verbatim>\<open>
  def normalize_ext(ext: str) -> str:
      ext = ext.strip().lower()
      return ext if ext.startswith('.') else '.' + ext
  \<close>
\<close>

definition normalize_ext :: "string \<Rightarrow> string" where
  "normalize_ext ext = (let e = lower (strip ext) in if startswith e ''.'' then e else ''.'' @ e)"

text \<open>
  The invariant the data model gives for a normalized extension, as the specification
  words it: non-empty, starts with a dot, all lower case, no white space inside.
\<close>

definition extension_spec :: "string \<Rightarrow> bool" where
  "extension_spec s = (s \<noteq> [] \<and> startswith s ''.'' \<and> lower s = s \<and> \<not> list_ex isspace s)"

text \<open>The test of line 53, \<^verbatim>\<open>fname.lower().endswith(old_ext)\<close>.\<close>

definition matches :: "string \<Rightarrow> string \<Rightarrow> bool" where
  "matches old_ext fname = endswith (lower fname) old_ext"

subsection \<open>Platforms and \<^verbatim>\<open>os.path\<close>\<close>

text \<open>
  What \<^verbatim>\<open>os.path\<close> computes depends on the platform. \<^verbatim>\<open>Linux\<close> and
  \<^verbatim>\<open>MacOS\<close> use \<^verbatim>\<open>posixpath\<close>, \<^verbatim>\<open>Windows\<close> uses \<^verbatim>\<open>ntpath\<close>; the file systems of
  \<^verbatim>\<open>MacOS\<close> and \<^verbatim>\<open>Windows\<close> find a name whatever its letter case, that of
  \<^verbatim>\<open>Linux\<close> does not. Windows paths are taken without a drive or UNC prefix.
\<close>

datatype platform = Linux | MacOS | Windows

definition is_sep :: "platform \<Rightarrow> char \<Rightarrow> bool" where
  "is_sep p c = (c = CHR ''/'' \<or> (p = Windows \<and> c = CHR 0x5C))"

definition sep :: "platform \<Rightarrow> char" where
  "sep p = (if p = Windows then CHR 0x5C else CHR ''/'')"

text \<open>
  \<^verbatim>\<open>os.path.normcase\<close>: the identity on POSIX; on Windows it replaces \<^verbatim>\<open>/\<close> by the
  backslash and lower-cases.
\<close>

definition normcase_char :: "platform \<Rightarrow> char \<Rightarrow> char" where
  "normcase_char p c =
     (if p = Windows then (if c = CHR ''/'' then CHR 0x5C else lower_char c) else c)"

definition normcase :: "platform \<Rightarrow> string \<Rightarrow> string" where
  "normcase p s = map (normcase_char p) s"

text \<open>
  \<^verbatim>\<open>os.path.join(a, b)\<close>: \<open>b\<close> alone when it is absolute, otherwise \<open>a\<close> and \<open>b\<close> with
  one separator between them unless \<open>a\<close> is empty or already ends with one.
\<close>

definition join :: "platform \<Rightarrow> string \<Rightarrow> string \<Rightarrow> string" where
  "join p a b =
     (if b \<noteq> [] \<and> is_sep p (hd b) then b
      else if a = [] \<or> is_sep p (last a) then a @ b
      else a @ [sep p] @ b)"

text \<open>
  \<^verbatim>\<open>os.path.basename\<close> is what follows the last separator; \<^verbatim>\<open>os.path.dirname\<close> is what
  precedes it, without its trailing separators unless it consists of separators only.
\<close>

definition basename :: "platform \<Rightarrow> string \<Rightarrow> string" where
  "basename p s = rev (takeWhile (\<lambda>c. \<not> is_sep p c) (rev s))"

definition dirname :: "platform \<Rightarrow> string \<Rightarrow> string" where
  "dirname p s =
     (let head = rev (dropWhile (\<lambda>c. \<not> is_sep p c) (rev s))
      in if list_all (is_sep p) head then head
         else rev (dropWhile (is_sep p) (rev head)))"

subsection \<open>The file system and the process state\<close>

text \<open>
  The file system is a store of entries, regular files (with their contents) and
  directories, each under the path string that names it; the order of the store is the
  order in which a directory scan reports entries. A path denotes the entry whose key
  equals it after the platform's folding of names (\<open>same_file\<close>); path strings are
  otherwise taken literally, so \<^verbatim>\<open>.\<close> and \<^verbatim>\<open>..\<close> components, doubled or trailing
  separators and symbolic links (dangling ones too, which \<^verbatim>\<open>os.path.exists\<close> does not
  see) are outside the model.

  The state of a run holds the store, the lines printed so far, the calls of
  \<^verbatim>\<open>os.rename\<close> made so far (source and destination, in order, whether they succeeded
  or not), and the source of random identifiers that \<^verbatim>\<open>uuid.uuid4()\<close> draws from.
\<close>

datatype entry = File string | Directory

datatype error = NotADirectoryError | FileNotFoundError | FileExistsError
  | IsADirectoryError | OSError

text \<open>What a call hands back to its caller: \<^verbatim>\<open>None\<close>, or a list of pairs of strings.\<close>

datatype pyval = PyNone | PyList "(string \<times> string) list"

record world =
  fs :: "(string \<times> entry) list"
  stdout :: "string list"
  trace :: "(string \<times> string) list"
  uuids :: "nat \<Rightarrow> string"
  drawn :: nat

definition fold_char :: "platform \<Rightarrow> char \<Rightarrow> char" where
  "fold_char p c =
     (case p of Linux \<Rightarrow> c | MacOS \<Rightarrow> lower_char c | Windows \<Rightarrow> normcase_char Windows c)"

definition fskey :: "platform \<Rightarrow> string \<Rightarrow> string" where
  "fskey p s = map (fold_char p) s"

definition same_file :: "platform \<Rightarrow> string \<Rightarrow> string \<Rightarrow> bool" where
  "same_file p a b = (fskey p a = fskey p b)"

definition lookup :: "platform \<Rightarrow> (string \<times> entry) list \<Rightarrow> string \<Rightarrow> (string \<times> entry) option" where
  "lookup p st path = find (\<lambda>(k, e). same_file p k path) st"

text \<open>\<^verbatim>\<open>os.path.exists\<close> and \<^verbatim>\<open>os.path.isdir\<close>\<close>

definition os_path_exists :: "platform \<Rightarrow> world \<Rightarrow> string \<Rightarrow> bool" where
  "os_path_exists p w path = (lookup p (fs w) path \<noteq> None)"

definition os_path_isdir :: "platform \<Rightarrow> world \<Rightarrow> string \<Rightarrow> bool" where
  "os_path_isdir p w path =
     (case lookup p (fs w) path of Some (k, Directory) \<Rightarrow> True | _ \<Rightarrow> False)"

text \<open>
  \<^verbatim>\<open>os.scandir\<close> as \<^verbatim>\<open>os.walk\<close> uses it: the names of the entries directly inside a
  directory, the directories apart from the rest. It fails on a path that is not a
  directory.
\<close>

definition is_child :: "platform \<Rightarrow> string \<Rightarrow> string \<Rightarrow> bool" where
  "is_child p d k = (basename p k \<noteq> [] \<and> same_file p (join p d (basename p k)) k)"

definition scandir :: "platform \<Rightarrow> world \<Rightarrow> string \<Rightarrow> (string list \<times> string list) option" where
  "scandir p w d =
     (if os_path_isdir p w d
      then let kids = filter (\<lambda>(k, e). is_child p d k) (fs w)
           in Some (map (\<lambda>(k, e). basename p k) (filter (\<lambda>(k, e). e = Directory) kids),
                    map (\<lambda>(k, e). basename p k) (filter (\<lambda>(k, e). e \<noteq> Directory) kids))
      else None)"

text \<open>
  \<^verbatim>\<open>os.rename(src, dst)\<close>. The source must exist and the directory of the destination
  must exist. A destination that does not exist yet, or that names the source itself
  (the same path, or the same name in another letter case on a file system that folds
  case), takes the new name. Any other existing destination makes Windows raise
  \<^verbatim>\<open>FileExistsError\<close>; POSIX replaces a file by a file and an empty directory by a
  directory, and raises otherwise. A directory moves with everything inside it. The
  limits of a real file system on the length of a name or a path, permissions and full
  disks are not modelled: \<^verbatim>\<open>os.rename\<close> raises for the reasons above only.
\<close>

definition inside :: "platform \<Rightarrow> string \<Rightarrow> string \<Rightarrow> bool" where
  "inside p d k =
     (length d < length k \<and> same_file p (take (length d) k) d \<and> is_sep p (k ! length d))"

definition rekey :: "platform \<Rightarrow> entry \<Rightarrow> string \<Rightarrow> string \<Rightarrow> string \<Rightarrow> string" where
  "rekey p e src dst k =
     (if same_file p k src then dst
      else if e = Directory \<and> inside p src k then dst @ drop (length src) k
      else k)"

definition move :: "platform \<Rightarrow> entry \<Rightarrow> string \<Rightarrow> string \<Rightarrow> world \<Rightarrow> world" where
  "move p e src dst w = w\<lparr>fs := map (\<lambda>(k, v). (rekey p e src dst k, v)) (fs w)\<rparr>"

definition unlink :: "platform \<Rightarrow> string \<Rightarrow> world \<Rightarrow> world" where
  "unlink p k w = w\<lparr>fs := filter (\<lambda>(j, v). \<not> same_file p j k) (fs w)\<rparr>"

definition os_rename :: "platform \<Rightarrow> string \<Rightarrow> string \<Rightarrow> world \<Rightarrow> (error + unit) \<times> world" where
  "os_rename p src dst w0 =
     (let w = w0\<lparr>trace := trace w0 @ [(src, dst)]\<rparr> in
      case lookup p (fs w) src of
        None \<Rightarrow> (Inl FileNotFoundError, w)
      | Some (k, e) \<Rightarrow>
          if dirname p dst \<noteq> [] \<and> \<not> os_path_isdir p w (dirname p dst)
          then (Inl FileNotFoundError, w)
          else if e = Directory \<and> inside p k dst then (Inl OSError, w)
          else (case lookup p (fs w) dst of
              None \<Rightarrow> (Inr (), move p e k dst w)
            | Some (k', e') \<Rightarrow>
                if same_file p k' k then (Inr (), move p e k dst w)
                else if p = Windows then (Inl FileExistsError, w)
                else if e \<noteq> Directory \<and> e' = Directory then (Inl IsADirectoryError, w)
                else if e = Directory \<and> e' \<noteq> Directory then (Inl NotADirectoryError, w)
                else if e = Directory \<and> list_ex (\<lambda>(j, v). inside p k' j) (fs w)
                  then (Inl OSError, w)
                else (Inr (), move p e k dst (unlink p k' w))))"

text \<open>\<^verbatim>\<open>str(uuid.uuid4())\<close>: the next identifier of the random source.\<close>

definition uuid4 :: "world \<Rightarrow> string \<times> world" where
  "uuid4 w = (uuids w (drawn w), w\<lparr>drawn := Suc (drawn w)\<rparr>)"

subsection \<open>The safe rename\<close>

text \<open>
  \<^verbatim>\<open>
  def safe_rename(old_path: str, new_path: str):
      if os.path.normcase(old_path) == os.path.normcase(new_path):
          dirpath = os.path.dirname(old_path)
          temp = os.path.join(dirpath, str(uuid.uuid4()))
          os.rename(old_path, temp)
          os.rename(temp, new_path)
      else:
          os.rename(old_path, new_path)
  \<close>
  An exception of the first \<^verbatim>\<open>os.rename\<close> leaves the function before the second.
\<close>

definition safe_rename :: "platform \<Rightarrow> string \<Rightarrow> string \<Rightarrow> world \<Rightarrow> (error + unit) \<times> world" where
  "safe_rename p old_path new_path w =
     (if normcase p old_path = normcase p new_path
      then let dirpath = dirname p old_path;
               (u, w1) = uuid4 w;
               temp = join p dirpath u
           in (case os_rename p old_path temp w1 of
                 (Inl e, w2) \<Rightarrow> (Inl e, w2)
               | (Inr _, w2) \<Rightarrow> os_rename p temp new_path w2)
      else os_rename p old_path new_path w)"

subsection \<open>The tree walk\<close>

text \<open>The line that \<^verbatim>\<open>print(f"[WARN] Skipping {old_path}: target exists")\<close> writes.\<close>

definition warn_line :: "string \<Rightarrow> string" where
  "warn_line old_path = ''[WARN] Skipping '' @ old_path @ '': target exists''"

text \<open>Lines 59 to 62: the collision check, then the skip or the rename.\<close>

definition guarded_rename :: "platform \<Rightarrow> string \<Rightarrow> string \<Rightarrow> world \<Rightarrow> (error + unit) \<times> world" where
  "guarded_rename p old_path new_path w =
     (if os_path_exists p w new_path \<and> \<not> normcase p old_path = normcase p new_path
      then (Inr (), w\<lparr>stdout := stdout w @ [warn_line old_path]\<rparr>)
      else safe_rename p old_path new_path w)"

text \<open>Lines 53 to 62: the body of the inner loop, for one file name of the listing.\<close>

definition process_file :: "platform \<Rightarrow> string \<Rightarrow> string \<Rightarrow> string \<Rightarrow> string \<Rightarrow> world \<Rightarrow> (error + unit) \<times> world" where
  "process_file p old_ext new_ext root fname w =
     (if matches old_ext fname
      then let base = py_drop_last (length old_ext) fname;
               new_name = base @ new_ext;
               old_path = join p root fname;
               new_path = join p root new_name
           in guarded_rename p old_path new_path w
      else (Inr (), w))"

text \<open>The inner loop \<^verbatim>\<open>for fname in files\<close>; an exception ends it.\<close>

fun process_files :: "platform \<Rightarrow> string \<Rightarrow> string \<Rightarrow> string \<Rightarrow> string list \<Rightarrow> world \<Rightarrow> (error + unit) \<times> world" where
  "process_files p old_ext new_ext root [] w = (Inr (), w)"
| "process_files p old_ext new_ext root (fname # rest) w =
     (case process_file p old_ext new_ext root fname w of
        (Inl e, w') \<Rightarrow> (Inl e, w')
      | (Inr _, w') \<Rightarrow> process_files p old_ext new_ext root rest w')"

text \<open>
  \<^verbatim>\<open>for root, dirs, files in os.walk(path, topdown=False): body\<close>. The generator scans
  a directory, walks its subdirectories one after the other in the order of the scan,
  and only then yields the directory with the two lists of that first scan, at which
  point the loop body runs. A directory that cannot be scanned is passed over. The
  recursion is bounded by fuel, one unit for each level of nesting; \<open>None\<close> says that
  the fuel ran out.
\<close>

fun os_walk :: "nat \<Rightarrow> platform
      \<Rightarrow> (string \<Rightarrow> string list \<Rightarrow> string list \<Rightarrow> world \<Rightarrow> (error + unit) \<times> world)
      \<Rightarrow> string \<Rightarrow> world \<Rightarrow> ((error + unit) \<times> world) option"
  and walk_dirs :: "nat \<Rightarrow> platform
      \<Rightarrow> (string \<Rightarrow> string list \<Rightarrow> string list \<Rightarrow> world \<Rightarrow> (error + unit) \<times> world)
      \<Rightarrow> string \<Rightarrow> string list \<Rightarrow> world \<Rightarrow> ((error + unit) \<times> world) option" where
  "os_walk 0 p body d w = None"
| "os_walk (Suc n) p body d w =
     (case scandir p w d of
        None \<Rightarrow> Some (Inr (), w)
      | Some (dirs, files) \<Rightarrow>
          (case walk_dirs n p body d dirs w of
             None \<Rightarrow> None
           | Some (Inl e, w') \<Rightarrow> Some (Inl e, w')
           | Some (Inr _, w') \<Rightarrow> Some (body d dirs files w')))"
| "walk_dirs n p body d [] w = Some (Inr (), w)"
| "walk_dirs n p body d (c # cs) w =
     (case os_walk n p body (join p d c) w of
        None \<Rightarrow> None
      | Some (Inl e, w') \<Rightarrow> Some (Inl e, w')
      | Some (Inr _, w') \<Rightarrow> walk_dirs n p body d cs w')"

text \<open>
  \<^verbatim>\<open>
  def rename_extensions(path: str, old_ext: str, new_ext: str):
      if not os.path.isdir(path):
          raise NotADirectoryError(f"Not a directory: {path}")
      old_ext = normalize_ext(old_ext)
      new_ext = normalize_ext(new_ext)
      for root, dirs, files in os.walk(path, topdown=False):
          for fname in files:
              ...
  \<close>
  The function has no \<^verbatim>\<open>return\<close> statement: a call that ends normally gives \<^verbatim>\<open>None\<close>.
\<close>

definition rename_extensions :: "nat \<Rightarrow> platform \<Rightarrow> string \<Rightarrow> string \<Rightarrow> string \<Rightarrow> world
      \<Rightarrow> ((error + pyval) \<times> world) option" where
  "rename_extensions n p path old_ext new_ext w =
     (if \<not> os_path_isdir p w path then Some (Inl NotADirectoryError, w)
      else let old_ext' = normalize_ext old_ext;
               new_ext' = normalize_ext new_ext
           in (case os_walk n p (\<lambda>root dirs files. process_files p old_ext' new_ext' root files) path w of
                 None \<Rightarrow> None
               | Some (Inl e, w') \<Rightarrow> Some (Inl e, w')
               | Some (Inr _, w') \<Rightarrow> Some (Inr PyNone, w')))"

subsection \<open>Well-formed stores, fuel, and sample worlds\<close>

text \<open>
  In a well-formed store no two entries denote the same file. The walk descends one
  level for each unit of fuel, and every level makes the path of the directory longer,
  so fuel beyond the length of the longest path of the store is enough; and a walk that
  had enough fuel gives the same result with more.
\<close>

definition well_formed :: "platform \<Rightarrow> world \<Rightarrow> bool" where
  "well_formed p w = distinct (map (\<lambda>(k, e). fskey p k) (fs w))"

definition directories :: "world \<Rightarrow> (string \<times> entry) list" where
  "directories w = filter (\<lambda>(k, e). e = Directory) (fs w)"

definition longest_path :: "world \<Rightarrow> nat" where
  "longest_path w = fold (\<lambda>(k, e) m. max (length k) m) (fs w) 0"

text \<open>Two calls with the same arguments, one after the other.\<close>

definition rename_twice :: "nat \<Rightarrow> platform \<Rightarrow> string \<Rightarrow> string \<Rightarrow> string \<Rightarrow> world
      \<Rightarrow> ((error + pyval) \<times> world) option" where
  "rename_twice n p path old_ext new_ext w =
     (case rename_extensions n p path old_ext new_ext w of
        Some (Inr v, w1) \<Rightarrow> rename_extensions n p path old_ext new_ext w1
      | other \<Rightarrow> other)"

text \<open>What an observer sees of a state: the store, the printed lines, the rename calls.\<close>

definition observe :: "((error + 'a) \<times> world) option
      \<Rightarrow> ((error + 'a) \<times> (string \<times> entry) list \<times> string list \<times> (string \<times> string) list) option" where
  "observe r = map_option (\<lambda>(v, w). (v, fs w, stdout w, trace w)) r"

text \<open>
  A state at the start of a run, for a given store: nothing printed, no call made, and a
  random source that keeps giving the same identifier.
\<close>

definition fresh_world :: "(string \<times> entry) list \<Rightarrow> world" where
  "fresh_world st = \<lparr>fs = st, stdout = [], trace = [], uuids = (\<lambda>n. ''7f3c-tmp''), drawn = 0\<rparr>"

text \<open>
  A tree with a file two levels down, a file one level down, a pair \<^verbatim>\<open>x.old\<close> and
  \<^verbatim>\<open>x.new\<close> that collide, and a file of another extension.
\<close>

definition sample_tree :: "(string \<times> entry) list" where
  "sample_tree =
     [(''/r'', Directory), (''/r/x.old'', File ''one''), (''/r/x.new'', File ''two''),
      (''/r/a'', Directory), (''/r/a/file2.OLD'', File ''three''),
      (''/r/a/b'', Directory), (''/r/a/b/file1.old'', File ''four''),
      (''/r/doc.txt'', File ''five'')]"

text \<open>A directory with one file.\<close>

definition single_file :: "(string \<times> entry) list" where
  "single_file = [(''/r'', Directory), (''/r/n.old'', File ''data'')]"

text \<open>A directory with one file whose name is in upper case.\<close>

definition upper_file :: "(string \<times> entry) list" where
  "upper_file = [(''/r'', Directory), (''/r/A.TXT'', File ''data'')]"

text \<open>
  A loop body for \<^verbatim>\<open>os.walk\<close> that changes no file: it prints the path of every file
  of a listing whose name the test of line 53 selects.
\<close>

definition collect_matching :: "platform \<Rightarrow> string \<Rightarrow> string \<Rightarrow> string list \<Rightarrow> string list \<Rightarrow> world
      \<Rightarrow> (error + unit) \<times> world" where
  "collect_matching p old_ext root dirs files w =
     (Inr (), w\<lparr>stdout := stdout w @ map (join p root) (filter (matches old_ext) files)\<rparr>)"

text \<open>A file is untouched by a run: its entry is in the store as before, under the same key and
  with the same contents; no \<^verbatim>\<open>os.rename\<close> call of the run has it as source or destination; and
  the run prints warning lines only, none of them about it.\<close>

definition untouched :: "platform \<Rightarrow> string \<Rightarrow> string \<Rightarrow> world \<Rightarrow> world \<Rightarrow> bool" where
  "untouched p q c w w' =
     ((q, File c) \<in> set (fs w')
      \<and> (\<exists>calls. trace w' = trace w @ calls
             \<and> list_all (\<lambda>(a, b). \<not> same_file p a q \<and> \<not> same_file p b q) calls)
      \<and> (\<exists>srcs. stdout w' = stdout w @ map warn_line srcs
             \<and> list_all (\<lambda>s. \<not> same_file p s q) srcs))"

text \<open>
  A file of a listing is skipped at a state when the test of line 53 selects it and the
  loop body, run on it there, makes no \<^verbatim>\<open>os.rename\<close> call: the file was to be renamed and
  no rename was attempted.
\<close>

definition skipped :: "platform \<Rightarrow> string \<Rightarrow> string \<Rightarrow> string \<Rightarrow> string \<Rightarrow> world \<Rightarrow> bool" where
  "skipped p old_ext new_ext root fname w =
     (matches old_ext fname
      \<and> trace (snd (process_file p old_ext new_ext root fname w)) = trace w)"




subsection \<open>Notions used in the proofs\<close>

text \<open>A plain name: not empty and without a separator, as the names of a directory scan are.\<close>

definition plain :: "platform \<Rightarrow> string \<Rightarrow> bool" where
  "plain p s = (s \<noteq> [] \<and> list_all (\<lambda>c. \<not> is_sep p c) s)"

text \<open>What \<^verbatim>\<open>os.path.join\<close> puts in front of a relative second argument.\<close>

definition join_head :: "platform \<Rightarrow> string \<Rightarrow> string" where
  "join_head p a = (if a = [] \<or> is_sep p (last a) then a else a @ [sep p])"

text \<open>The store after a successful rename of the file under key \<open>k\<close> to \<open>dst\<close>: the entry takes the new
  key, and an entry that \<open>dst\<close> denoted before is gone.\<close>

definition renamed :: "platform \<Rightarrow> string \<Rightarrow> string \<Rightarrow> (string \<times> entry) list \<Rightarrow> (string \<times> entry) list" where
  "renamed p k dst st =
     map (\<lambda>(j, v). (if same_file p j k then dst else j, v))
       (filter (\<lambda>(j, v). same_file p j k \<or> \<not> same_file p j dst) st)"

text \<open>No two entries of a store denote the same file.\<close>

definition unique_keys :: "platform \<Rightarrow> (string \<times> entry) list \<Rightarrow> bool" where
  "unique_keys p st = distinct (map (\<lambda>(k, e). fskey p k) st)"

text \<open>The store is well formed and its directories are the given ones: the walk never changes them.\<close>

definition stable :: "platform \<Rightarrow> (string \<times> entry) list \<Rightarrow> world \<Rightarrow> bool" where
  "stable p D w = (unique_keys p (fs w) \<and> directories w = D)"

text \<open>No directory of the list is denoted by the path.\<close>

definition not_dir :: "platform \<Rightarrow> (string \<times> entry) list \<Rightarrow> string \<Rightarrow> bool" where
  "not_dir p D a = (\<not> list_ex (\<lambda>(k, e). same_file p k a) D)"

text \<open>Every name of a listing is plain and denotes no directory.\<close>

definition listing_ok :: "platform \<Rightarrow> (string \<times> entry) list \<Rightarrow> string \<Rightarrow> string list \<Rightarrow> bool" where
  "listing_ok p D d files = list_all (\<lambda>f. plain p f \<and> not_dir p D (join p d f)) files"

text \<open>The invariant of the walk for a file it leaves untouched.\<close>

definition keeps :: "platform \<Rightarrow> (string \<times> entry) list \<Rightarrow> string \<Rightarrow> string \<Rightarrow> world \<Rightarrow> world \<Rightarrow> bool" where
  "keeps p D q c w0 w = (stable p D w \<and> uuids w = uuids w0 \<and> untouched p q c w0 w)"

text \<open>The files of a store whose names the test of the walk selects.\<close>

definition matching_files :: "platform \<Rightarrow> string \<Rightarrow> world \<Rightarrow> string set" where
  "matching_files p oe w = {k. \<exists>c. (k, File c) \<in> set (fs w) \<and> matches oe (basename p k)}"

text \<open>A pair of extensions under which a renamed file is not selected again: the new one is
  normalized, and neither is a suffix of the other.\<close>

definition exts_ok :: "string \<Rightarrow> string \<Rightarrow> bool" where
  "exts_ok oe ne = (ne \<noteq> [] \<and> hd ne = CHR ''.'' \<and> lower ne = ne \<and> \<not> suffix oe ne \<and> \<not> suffix ne oe)"

text \<open>The invariant of a walk for what it prints and what it selects: the printed lines only
  grow, and no file that is selected appears that was not there before.\<close>

definition settled :: "platform \<Rightarrow> (string \<times> entry) list \<Rightarrow> string \<Rightarrow> string set \<Rightarrow> string list \<Rightarrow> world \<Rightarrow> bool" where
  "settled p D oe S out w = (stable p D w \<and> prefix out (stdout w) \<and> matching_files p oe w \<subseteq> S)"

subsection \<open>File names beyond Latin-1\<close>

text \<open>
  A Python \<^verbatim>\<open>str\<close> of any code points is a list of natural numbers. On these
  \<^verbatim>\<open>str.lower\<close> is CPython's \<^verbatim>\<open>do_lower\<close>: every code point is replaced by its full
  lower-case mapping, which may be more than one code point, except the capital sigma
  U+03A3, which becomes the final small sigma U+03C2 where the original string has a cased
  letter before it, case-ignorable characters apart, and none after it, and the small
  sigma U+03C3 elsewhere. The three tables this takes from the Unicode character
  database (the full lower-case mapping, \<open>Cased\<close>, \<open>Case_Ignorable\<close>) are written out
  for the code points below 256, for U+0130 and U+0307, and for the Greek letters U+0391
  to U+03A9 and U+03B1 to U+03C9; a string with any other code point is not lower-cased
  here (\<open>None\<close>).
\<close>

definition wide_covered :: "nat \<Rightarrow> bool" where
  "wide_covered c = (c < 256 \<or> c = 0x130 \<or> c = 0x307 \<or> (0x391 \<le> c \<and> c \<le> 0x3A1)
      \<or> (0x3A3 \<le> c \<and> c \<le> 0x3A9) \<or> (0x3B1 \<le> c \<and> c \<le> 0x3C9))"

text \<open>\<^verbatim>\<open>str.isspace\<close> of one covered code point.\<close>

definition wide_isspace :: "nat \<Rightarrow> bool" where
  "wide_isspace c = ((9 \<le> c \<and> c \<le> 13) \<or> (28 \<le> c \<and> c \<le> 32) \<or> c = 133 \<or> c = 160)"

text \<open>The full lower-case mapping of a covered code point other than the capital sigma.\<close>

definition wide_to_lower_full :: "nat \<Rightarrow> nat list" where
  "wide_to_lower_full c =
     (if c = 0x130 then [0x69, 0x307]
      else if (0x41 \<le> c \<and> c \<le> 0x5A) \<or> (0xC0 \<le> c \<and> c \<le> 0xD6) \<or> (0xD8 \<le> c \<and> c \<le> 0xDE)
              \<or> (0x391 \<le> c \<and> c \<le> 0x3A1) \<or> (0x3A3 \<le> c \<and> c \<le> 0x3A9)
      then [c + 32] else [c])"

text \<open>The properties \<open>Cased\<close> and \<open>Case_Ignorable\<close> of a covered code point.\<close>

definition wide_cased :: "nat \<Rightarrow> bool" where
  "wide_cased c =
     ((0x41 \<le> c \<and> c \<le> 0x5A) \<or> (0x61 \<le> c \<and> c \<le> 0x7A) \<or> c = 0xAA \<or> c = 0xB5 \<or> c = 0xBA
      \<or> (0xC0 \<le> c \<and> c \<le> 0xD6) \<or> (0xD8 \<le> c \<and> c \<le> 0xF6) \<or> (0xF8 \<le> c \<and> c \<le> 0xFF)
      \<or> c = 0x130 \<or> (0x391 \<le> c \<and> c \<le> 0x3A1) \<or> (0x3A3 \<le> c \<and> c \<le> 0x3A9)
      \<or> (0x3B1 \<le> c \<and> c \<le> 0x3C9))"

definition wide_case_ignorable :: "nat \<Rightarrow> bool" where
  "wide_case_ignorable c =
     (c \<in> set [0x27, 0x2E, 0x3A, 0x5E, 0x60, 0xA8, 0xAD, 0xAF, 0xB4, 0xB7, 0xB8, 0x307])"

text \<open>
  The context test for a capital sigma: \<open>seen\<close> holds the code points of the original
  string before it, the nearest first, \<open>rest\<close> those after it.
\<close>

definition final_sigma :: "nat list \<Rightarrow> nat list \<Rightarrow> bool" where
  "final_sigma seen rest =
     ((case dropWhile wide_case_ignorable seen of [] \<Rightarrow> False | b # _ \<Rightarrow> wide_cased b)
      \<and> (case dropWhile wide_case_ignorable rest of [] \<Rightarrow> True | a # _ \<Rightarrow> \<not> wide_cased a))"

fun wide_lower_from :: "nat list \<Rightarrow> nat list \<Rightarrow> nat list" where
  "wide_lower_from seen [] = []"
| "wide_lower_from seen (c # rest) =
     (if c = 0x3A3 then [if final_sigma seen rest then 0x3C2 else 0x3C3]
      else wide_to_lower_full c)
     @ wide_lower_from (c # seen) rest"

definition wide_lower :: "nat list \<Rightarrow> nat list option" where
  "wide_lower s = (if list_all wide_covered s then Some (wide_lower_from [] s) else None)"

text \<open>\<^verbatim>\<open>s.strip()\<close>\<close>

definition wide_strip :: "nat list \<Rightarrow> nat list" where
  "wide_strip s = rev (dropWhile wide_isspace (rev (dropWhile wide_isspace s)))"

text \<open>\<^verbatim>\<open>normalize_ext\<close>, the test of line 53 and the new name of lines 54 and 55, on these
  strings.\<close>

definition wide_normalize_ext :: "nat list \<Rightarrow> nat list option" where
  "wide_normalize_ext ext =
     (case wide_lower (wide_strip ext) of
        None \<Rightarrow> None
      | Some e \<Rightarrow> Some (if startswith e [0x2E] then e else [0x2E] @ e))"

definition wide_matches :: "nat list \<Rightarrow> nat list \<Rightarrow> bool option" where
  "wide_matches old_ext fname =
     (case wide_lower fname of None \<Rightarrow> None | Some l \<Rightarrow> Some (endswith l old_ext))"

definition wide_new_name :: "nat list \<Rightarrow> nat list \<Rightarrow> nat list \<Rightarrow> nat list" where
  "wide_new_name old_ext new_ext fname = py_drop_last (length old_ext) fname @ new_ext"

text \<open>A string of the model as a list of code points.\<close>

definition code_points :: "string \<Rightarrow> nat list" where
  "code_points s = map of_char s"

section \<open>Properties\<close>

subsection \<open>Characters and strings\<close>

lemma of_char_lower_char:
  "(of_char (lower_char c) :: nat) = (if isupper c then of_char c + 32 else of_char c)"
  by (simp add: lower_char_def isupper_def Let_def)

lemma isupper_lower_char [simp]: "\<not> isupper (lower_char c)"
  by (simp add: isupper_def[of "lower_char c"] of_char_lower_char Let_def) (simp add: isupper_def Let_def)

lemma lower_char_idem [simp]: "lower_char (lower_char c) = lower_char c"
  using isupper_lower_char[of c] by (simp add: lower_char_def[of "lower_char c"])

lemma isspace_lower_char [simp]: "isspace (lower_char c) = isspace c"
  by (simp add: isspace_def[of "lower_char c"] of_char_lower_char Let_def) (auto simp add: isupper_def isspace_def Let_def)

lemma lower_char_dot [simp]: "(lower_char c = CHR ''.'') = (c = CHR ''.'')"
proof -
  have "(lower_char c = CHR ''.'') = ((of_char (lower_char c) :: nat) = of_char (CHR ''.''))"
    by (simp only: of_char_eq_iff)
  also have "\<dots> = ((of_char c :: nat) = of_char (CHR ''.''))"
    by (auto simp add: of_char_lower_char isupper_def Let_def)
  also have "\<dots> = (c = CHR ''.'')"
    by (simp only: of_char_eq_iff)
  finally show ?thesis .
qed

lemma lower_idem [simp]: "lower (lower s) = lower s"
  by (simp add: lower_def)

lemma lower_append [simp]: "lower (a @ b) = lower a @ lower b"
  by (simp add: lower_def)

lemma length_lower [simp]: "length (lower s) = length s"
  by (simp add: lower_def)

lemma lower_Nil [simp]: "lower [] = []" "(lower s = []) = (s = [])"
  by (simp_all add: lower_def)

lemma endswith_suffix: "endswith s suf = suffix suf s"
  unfolding endswith_def suffix_def
  by (metis append_eq_conv_conj append_take_drop_id diff_add_inverse2 le_add2 length_append length_drop)

lemma startswith_prefix: "startswith s pre = prefix pre s"
  unfolding startswith_def prefix_def
  by (metis append_eq_conv_conj)

lemma dropWhile_same: "xs = [] \<or> \<not> P (hd xs) \<Longrightarrow> dropWhile P xs = xs"
  by (cases xs) auto

lemma last_dropWhile: "dropWhile P xs \<noteq> [] \<Longrightarrow> last (dropWhile P xs) = last xs"
  by (induction xs) (auto split: if_splits)

lemma strip_fixed:
  assumes "s = [] \<or> (\<not> isspace (hd s) \<and> \<not> isspace (last s))"
  shows "strip s = s"
proof -
  have 1: "dropWhile isspace s = s"
    using assms by (intro dropWhile_same) auto
  have 2: "dropWhile isspace (rev s) = rev s"
    using assms by (intro dropWhile_same) (auto simp: hd_rev)
  show ?thesis by (simp add: strip_def 1 2)
qed

lemma strip_ends:
  "strip s = [] \<or> (\<not> isspace (hd (strip s)) \<and> \<not> isspace (last (strip s)))"
proof -
  define a where "a = dropWhile isspace s"
  define b where "b = dropWhile isspace (rev a)"
  have s: "strip s = rev b" by (simp add: strip_def a_def b_def)
  show ?thesis
  proof (cases "b = []")
    case True then show ?thesis by (simp add: s)
  next
    case False
    then have hb: "\<not> isspace (hd b)" unfolding b_def by (metis hd_dropWhile)
    from False have ne: "a \<noteq> []" unfolding b_def by auto
    then have ha: "\<not> isspace (hd a)" unfolding a_def by (metis hd_dropWhile)
    have "last b = last (rev a)" using False unfolding b_def by (rule last_dropWhile)
    then have "last b = hd a" using ne by (simp add: last_rev)
    then show ?thesis using ha hb False by (simp add: s hd_rev last_rev)
  qed
qed

lemma strip_idem [simp]: "strip (strip s) = strip s"
  using strip_ends[of s] by (intro strip_fixed) auto

lemma hd_lower: "s \<noteq> [] \<Longrightarrow> hd (lower s) = lower_char (hd s)"
  by (simp add: lower_def hd_map)

lemma last_lower: "s \<noteq> [] \<Longrightarrow> last (lower s) = lower_char (last s)"
  by (simp add: lower_def last_map)

lemma isspace_dot [simp]: "\<not> isspace CHR ''.''"
  by (simp add: isspace_def)

lemma lower_char_dot2 [simp]: "lower_char CHR ''.'' = CHR ''.''"
  by (simp add: lower_char_def isupper_def)

lemma normalize_ext_cases:
  "normalize_ext x = CHR ''.'' # t \<and> (t = [] \<or> \<not> isspace (last t)) \<and> lower t = t" if "t = tl (normalize_ext x)"
proof -
  define e where "e = lower (strip x)"
  have le: "lower e = e" by (simp add: e_def)
  have ends: "e = [] \<or> (\<not> isspace (hd e) \<and> \<not> isspace (last e))"
    using strip_ends[of x] by (auto simp: e_def hd_lower last_lower)
  show ?thesis
  proof (cases "startswith e ''.''")
    case True
    then obtain r where r: "e = CHR ''.'' # r" by (cases e) (auto simp: startswith_def)
    have n: "normalize_ext x = e" using True by (simp add: normalize_ext_def e_def)
    from le r have "lower r = r" by (simp add: lower_def)
    moreover from ends r have "r = [] \<or> \<not> isspace (last r)" by (auto split: if_splits)
    ultimately show ?thesis using that n r by simp
  next
    case False
    then have n: "normalize_ext x = CHR ''.'' # e" by (simp add: normalize_ext_def e_def)
    show ?thesis using that n le ends by auto
  qed
qed

lemma normalize_ext_shape:
  obtains t where "normalize_ext x = CHR ''.'' # t" "t = [] \<or> \<not> isspace (last t)" "lower t = t"
  using normalize_ext_cases[OF refl, of x] by blast

lemma normalize_ext_fixed:
  assumes "y = CHR ''.'' # t" "t = [] \<or> \<not> isspace (last t)" "lower t = t"
  shows "normalize_ext y = y"
proof -
  have "strip y = y" using assms by (intro strip_fixed) auto
  moreover have "lower y = y" using assms by (simp add: lower_def)
  ultimately show ?thesis using assms by (simp add: normalize_ext_def startswith_def)
qed

lemma matches_dot: "matches ''.'' fname \<longleftrightarrow> fname \<noteq> [] \<and> last fname = CHR ''.''"
  unfolding matches_def endswith_suffix
  by (cases fname rule: rev_cases) (auto simp: suffix_def lower_def)

lemma normalize_ext_nonempty [simp]: "normalize_ext x \<noteq> []"
  by (rule normalize_ext_shape[of x]) simp

lemma py_drop_last_ext:
  "py_drop_last (length (normalize_ext e)) s = take (length s - length (normalize_ext e)) s"
  by (simp add: py_drop_last_def)

subsection \<open>The normalizer\<close>

text \<open>
  Claim C9. The normalizer is idempotent: normalizing a normalized extension changes
  nothing, for every input string.
\<close>

theorem normalize_ext_idempotent: "normalize_ext (normalize_ext x) = normalize_ext x"
proof -
  obtain t where "normalize_ext x = CHR ''.'' # t" "t = [] \<or> \<not> isspace (last t)" "lower t = t"
    by (rule normalize_ext_shape)
  then show ?thesis by (rule normalize_ext_fixed)
qed

text \<open>
  Claim C7, as the code has it. For every input the normalized extension is non-empty,
  starts with a dot, is unchanged by lower-casing and is unchanged by trimming: it has no
  upper-case letter and no white space at either end. White space inside the input is
  kept.
\<close>

theorem normalize_ext_invariant:
  "normalize_ext x \<noteq> [] \<and> startswith (normalize_ext x) ''.''
   \<and> lower (normalize_ext x) = normalize_ext x \<and> strip (normalize_ext x) = normalize_ext x"
proof -
  obtain t where t: "normalize_ext x = CHR ''.'' # t" "t = [] \<or> \<not> isspace (last t)" "lower t = t"
    by (rule normalize_ext_shape)
  have "strip (normalize_ext x) = normalize_ext x" using t by (intro strip_fixed) auto
  then show ?thesis using t by (simp add: startswith_def lower_def)
qed

text \<open>
  Claim C7 as stated fails: the input \<^verbatim>\<open>a b\<close> normalizes to \<^verbatim>\<open>.a b\<close>, which has white
  space inside and so breaks the stated invariant.
\<close>

theorem normalize_ext_keeps_inner_space:
  "normalize_ext ''a b'' = ''.a b'' \<and> \<not> extension_spec (normalize_ext ''a b'')"
  by code_simp

text \<open>
  Claim C8, as the code has it. An input that is empty after trimming normalizes to the
  extension \<^verbatim>\<open>.\<close>, and with that extension the test of the walk selects exactly the
  file names that end with a dot.
\<close>

theorem empty_ext_matches_trailing_dot:
  "strip x = [] \<Longrightarrow>
     normalize_ext x = ''.'' \<and>
     (matches (normalize_ext x) fname \<longleftrightarrow> fname \<noteq> [] \<and> last fname = CHR ''.'')"
  by (simp add: normalize_ext_def startswith_def matches_dot)

theorem empty_ext_matches_trailing_dot_witness:
  "strip ''  '' = [] \<and> normalize_ext ''  '' = ''.'' \<and> matches (normalize_ext ''  '') ''notes.''"
proof -
  have h: "strip ''  '' = []" by code_simp
  have "''notes.'' \<noteq> [] \<and> last ''notes.'' = CHR ''.''" by simp
  with h empty_ext_matches_trailing_dot [OF h, of "''notes.''"] show ?thesis by blast
qed

text \<open>
  Claim C8 as stated fails in its second half: a name with no extension at all, such as
  \<^verbatim>\<open>README\<close>, does not end with a dot and is not selected.
\<close>

theorem empty_ext_skips_extensionless:
  "normalize_ext [] = ''.'' \<and> \<not> matches (normalize_ext []) ''README''"
  by code_simp

subsection \<open>The rename primitive\<close>

lemma os_rename_trace: "trace (snd (os_rename p a b w)) = trace w @ [(a, b)]"
  by (simp add: os_rename_def move_def unlink_def Let_def split: option.splits prod.splits)

lemma os_rename_stdout: "stdout (snd (os_rename p a b w)) = stdout w"
  by (simp add: os_rename_def move_def unlink_def Let_def split: option.splits prod.splits)

subsection \<open>The safe rename\<close>

text \<open>
  Claim C3, as the code has it. \<^verbatim>\<open>safe_rename\<close> takes the two-step path exactly when
  \<^verbatim>\<open>os.path.normcase\<close> gives the same string for source and destination: it calls
  \<^verbatim>\<open>os.rename\<close> from the source to a temporary name in the directory of the source and,
  if that call succeeds, from the temporary name to the destination. In every other case
  it makes the single call from source to destination. On POSIX \<^verbatim>\<open>normcase\<close> is the
  identity, so there the two-step path is taken only for identical paths.
\<close>

theorem safe_rename_calls:
  "trace (snd (safe_rename p src dst w)) =
     trace w @
       (if normcase p src = normcase p dst
        then (let tmp = join p (dirname p src) (uuids w (drawn w))
              in (src, tmp) # (if fst (os_rename p src tmp (snd (uuid4 w))) = Inr () then [(tmp, dst)] else []))
        else [(src, dst)])"
proof (cases "normcase p src = normcase p dst")
  case False
  then show ?thesis by (simp add: safe_rename_def os_rename_trace)
next
  case True
  obtain r w2 where s: "os_rename p src (join p (dirname p src) (uuids w (drawn w)))
      (w\<lparr>drawn := Suc (drawn w)\<rparr>) = (r, w2)"
    by (cases "os_rename p src (join p (dirname p src) (uuids w (drawn w))) (w\<lparr>drawn := Suc (drawn w)\<rparr>)")
  have t2: "trace w2 = trace w @ [(src, join p (dirname p src) (uuids w (drawn w)))]"
    using os_rename_trace[of p src "join p (dirname p src) (uuids w (drawn w))" "w\<lparr>drawn := Suc (drawn w)\<rparr>"] s
    by simp
  show ?thesis
  proof (cases r)
    case (Inl e)
    then show ?thesis using True s t2
      by (simp add: safe_rename_def uuid4_def Let_def)
  next
    case (Inr u)
    then show ?thesis using True s t2
        os_rename_trace[of p "join p (dirname p src) (uuids w (drawn w))" dst w2]
      by (simp add: safe_rename_def uuid4_def Let_def)
  qed
qed

text \<open>
  Claim C3 as stated fails: on Linux the paths \<^verbatim>\<open>/r/A.TXT\<close> and \<^verbatim>\<open>/r/a.txt\<close> are
  identical up to letter case, and \<^verbatim>\<open>safe_rename\<close> makes one direct call.
\<close>

theorem safe_rename_case_only_direct:
  "lower ''/r/A.TXT'' = lower ''/r/a.txt'' \<and>
   observe (Some (safe_rename Linux ''/r/A.TXT'' ''/r/a.txt'' (fresh_world upper_file))) =
     Some (Inr (), [(''/r'', Directory), (''/r/a.txt'', File ''data'')], [], [(''/r/A.TXT'', ''/r/a.txt'')])"
  by code_simp

text \<open>
  On Windows the same call takes the two-step path, through the temporary name, and the
  file ends under the new name.
\<close>

lemma safe_rename_windows_two_step:
  "observe (Some (safe_rename Windows ''/r/A.TXT'' ''/r/a.txt'' (fresh_world upper_file))) =
     Some (Inr (), [(''/r'', Directory), (''/r/a.txt'', File ''data'')], [],
       [(''/r/A.TXT'', ''/r'' @ [CHR 0x5C] @ ''7f3c-tmp''),
        (''/r'' @ [CHR 0x5C] @ ''7f3c-tmp'', ''/r/a.txt'')])"
  by code_simp

subsection \<open>The root check\<close>

text \<open>
  Claim C5. When the root is not an existing directory the call raises
  \<^verbatim>\<open>NotADirectoryError\<close> and the state is the one before the call: no entry of the
  store has changed and no \<^verbatim>\<open>os.rename\<close> has been called. This holds whatever the fuel.
\<close>

theorem invalid_root:
  "\<not> os_path_isdir p w path \<Longrightarrow>
     rename_extensions n p path old_ext new_ext w = Some (Inl NotADirectoryError, w)"
  by (simp add: rename_extensions_def)

theorem invalid_root_witness:
  "\<not> os_path_isdir Linux (fresh_world sample_tree) ''/r/doc.txt'' \<and>
   rename_extensions 3 Linux ''/r/doc.txt'' ''old'' ''new'' (fresh_world sample_tree)
     = Some (Inl NotADirectoryError, fresh_world sample_tree)"
proof -
  have h: "\<not> os_path_isdir Linux (fresh_world sample_tree) ''/r/doc.txt''" by code_simp
  show ?thesis using h invalid_root [OF h] by simp
qed

subsection \<open>Collisions\<close>

text \<open>
  What the guard of line 59 does for a selected file whose destination exists and whose
  source and destination \<^verbatim>\<open>os.path.normcase\<close> tells apart: nothing is renamed, one line
  naming the source and the reason is printed, and the loop goes on with the next file.
\<close>

lemma told_apart_is_skipped:
  assumes "matches old_ext fname"
    and "os_path_exists p w (join p root (py_drop_last (length old_ext) fname @ new_ext))"
    and "normcase p (join p root fname)
          \<noteq> normcase p (join p root (py_drop_last (length old_ext) fname @ new_ext))"
  shows "process_file p old_ext new_ext root fname w =
           (Inr (), w\<lparr>stdout := stdout w @ [warn_line (join p root fname)]\<rparr>)"
    and "process_files p old_ext new_ext root (fname # rest) w =
           process_files p old_ext new_ext root rest
             (w\<lparr>stdout := stdout w @ [warn_line (join p root fname)]\<rparr>)"
  using assms by (simp_all add: process_file_def guarded_rename_def Let_def)

text \<open>
  Claim C2 says that a file whose destination is the file itself, found under a name that
  differs in letter case only, is renamed. The module announces as much (``Handles
  case-insensitive filesystems'', and \<^verbatim>\<open>safe_rename\<close> is there for this rename), and the
  guard of line 59 attempts it, but it tells a file from itself by
  \<^verbatim>\<open>os.path.normcase\<close>, which ignores letter case on Windows only. On a POSIX system
  whose file system ignores letter case (macOS) the claim breaks: a directory \<^verbatim>\<open>/r\<close>
  holds the single file \<^verbatim>\<open>A.TXT\<close>, and the call with the extensions \<^verbatim>\<open>txt\<close> and \<^verbatim>\<open>TXT\<close>
  is to rename it to \<^verbatim>\<open>A.txt\<close>. The store is well formed and holds no second file;
  \<^verbatim>\<open>os.path.exists\<close> finds \<^verbatim>\<open>/r/A.txt\<close>, which is \<^verbatim>\<open>A.TXT\<close> itself; \<^verbatim>\<open>normcase\<close> is the
  identity and tells the two paths apart; the file is reported as a collision and no
  \<^verbatim>\<open>os.rename\<close> call is made. Handed to \<^verbatim>\<open>safe_rename\<close>, the same file is renamed there.
  The same call renames the file on Windows, through a temporary name, and on Linux,
  directly.
\<close>

theorem case_only_rename_skipped_on_macos:
  "well_formed MacOS (fresh_world upper_file)
   \<and> same_file MacOS ''/r/A.TXT'' ''/r/A.txt''
   \<and> os_path_exists MacOS (fresh_world upper_file) ''/r/A.txt''
   \<and> normcase MacOS ''/r/A.TXT'' \<noteq> normcase MacOS ''/r/A.txt''
   \<and> observe (rename_extensions 4 MacOS ''/r'' ''txt'' ''TXT'' (fresh_world upper_file)) =
       Some (Inr PyNone, [(''/r'', Directory), (''/r/A.TXT'', File ''data'')],
         [''[WARN] Skipping /r/A.TXT: target exists''], [])
   \<and> observe (Some (safe_rename MacOS ''/r/A.TXT'' ''/r/A.txt'' (fresh_world upper_file))) =
       Some (Inr (), [(''/r'', Directory), (''/r/A.txt'', File ''data'')], [],
         [(''/r/A.TXT'', ''/r/A.txt'')])
   \<and> observe (rename_extensions 4 Windows ''/r'' ''txt'' ''TXT'' (fresh_world upper_file)) =
       Some (Inr PyNone, [(''/r'', Directory), (join Windows ''/r'' ''A.txt'', File ''data'')], [],
         [(join Windows ''/r'' ''A.TXT'', join Windows ''/r'' ''7f3c-tmp''),
          (join Windows ''/r'' ''7f3c-tmp'', join Windows ''/r'' ''A.txt'')])
   \<and> observe (rename_extensions 4 Linux ''/r'' ''txt'' ''TXT'' (fresh_world upper_file)) =
       Some (Inr PyNone, [(''/r'', Directory), (''/r/A.txt'', File ''data'')], [],
         [(''/r/A.TXT'', ''/r/A.txt'')])"
  by code_simp

subsection \<open>Selection of files and the new name\<close>

text \<open>
  For a file name of code points below 256, where lower-casing is character by character
  and keeps the length: the file is selected exactly when its lower-cased name has the
  normalized old extension as a suffix; the new name is the original name without its last
  \<open>length old_ext\<close> characters, followed by the new extension; the destination is the
  directory of the listing joined with that name; and what is removed has exactly the
  length of the old extension.
\<close>

lemma selection_and_target_latin1:
  "process_file p (normalize_ext old_ext) (normalize_ext new_ext) root fname w =
     (if suffix (normalize_ext old_ext) (lower fname)
      then guarded_rename p (join p root fname)
             (join p root (take (length fname - length (normalize_ext old_ext)) fname
                           @ normalize_ext new_ext)) w
      else (Inr (), w))
   \<and> (suffix (normalize_ext old_ext) (lower fname) \<longrightarrow>
        length (take (length fname - length (normalize_ext old_ext)) fname)
          + length (normalize_ext old_ext) = length fname)"
proof -
  have "suffix (normalize_ext old_ext) (lower fname) \<Longrightarrow> length (normalize_ext old_ext) \<le> length fname"
    using suffix_length_le by fastforce
  then show ?thesis
    by (auto simp add: process_file_def matches_def endswith_suffix py_drop_last_ext Let_def)
qed

text \<open>
  On strings of code points below 256 the functions on lists of code points are the
  functions of the model.
\<close>

lemma of_char_covered: "wide_covered (of_char (c::char))"
proof -
  have "(of_char c :: nat) < 256" by simp
  then show ?thesis by (simp add: wide_covered_def)
qed

lemma wide_isspace_of_char: "wide_isspace (of_char c) = isspace c"
  by (simp add: wide_isspace_def isspace_def Let_def)

lemma wide_to_lower_full_of_char: "wide_to_lower_full (of_char c) = [of_char (lower_char c)]"
proof -
  have b: "(of_char c :: nat) < 256" by simp
  show ?thesis
  proof (cases "isupper c")
    case True
    then have "(of_char (lower_char c) :: nat) = of_char c + 32" by (simp add: of_char_lower_char)
    moreover have "\<not> 0x391 \<le> (of_char c :: nat)" "\<not> 0x3A3 \<le> (of_char c :: nat)" "(of_char c :: nat) \<noteq> 0x130"
      using b by arith+
    ultimately show ?thesis using True by (simp add: wide_to_lower_full_def isupper_def Let_def)
  next
    case False
    moreover have "\<not> 0x391 \<le> (of_char c :: nat)" "\<not> 0x3A3 \<le> (of_char c :: nat)" "(of_char c :: nat) \<noteq> 0x130"
      using b by arith+
    ultimately show ?thesis by (auto simp add: wide_to_lower_full_def isupper_def lower_char_def Let_def)
  qed
qed

lemma wide_lower_from_code_points:
  "wide_lower_from seen (code_points s) = code_points (lower s)"
proof (induction s arbitrary: seen)
  case Nil
  then show ?case by (simp add: code_points_def lower_def)
next
  case (Cons c s)
  have "(of_char c :: nat) < 256" by simp
  then have "(of_char c :: nat) \<noteq> 0x3A3" by arith
  then show ?case using Cons.IH[of "of_char c # seen"]
    by (simp add: code_points_def lower_def wide_to_lower_full_of_char)
qed

lemma wide_lower_code_points: "wide_lower (code_points s) = Some (code_points (lower s))"
  using wide_lower_from_code_points[of "[]" s]
  by (simp add: wide_lower_def list_all_iff code_points_def of_char_covered)

lemma dropWhile_code_points:
  "dropWhile wide_isspace (code_points s) = code_points (dropWhile isspace s)"
  by (induction s) (simp_all add: code_points_def wide_isspace_of_char)

lemma wide_strip_code_points: "wide_strip (code_points s) = code_points (strip s)"
proof -
  have r: "rev (code_points s) = code_points (rev s)" for s by (simp add: code_points_def rev_map)
  show ?thesis by (simp add: wide_strip_def strip_def r dropWhile_code_points)
qed

lemma startswith_code_points: "startswith (code_points s) (code_points t) = startswith s t"
proof -
  have "inj (of_char :: char \<Rightarrow> nat)" by (simp add: inj_on_def)
  then have "(map of_char (take (length t) s) = map (of_char :: char \<Rightarrow> nat) t) = (take (length t) s = t)"
    by (simp add: inj_map_eq_map)
  then show ?thesis by (simp add: startswith_def code_points_def take_map)
qed

lemma endswith_code_points: "endswith (code_points s) (code_points t) = endswith s t"
proof -
  have "inj (of_char :: char \<Rightarrow> nat)" by (simp add: inj_on_def)
  then have "(map of_char (drop (length s - length t) s) = map (of_char :: char \<Rightarrow> nat) t) = (drop (length s - length t) s = t)"
    by (simp add: inj_map_eq_map)
  then show ?thesis by (simp add: endswith_def code_points_def drop_map)
qed

lemma wide_normalize_ext_code_points:
  "wide_normalize_ext (code_points s) = Some (code_points (normalize_ext s))"
proof -
  have d: "[0x2E] = code_points ''.''" by (simp add: code_points_def)
  show ?thesis
    unfolding wide_normalize_ext_def wide_strip_code_points wide_lower_code_points d
    by (simp add: startswith_code_points normalize_ext_def Let_def) (simp add: code_points_def)
qed

lemma wide_matches_code_points:
  "wide_matches (code_points old_ext) (code_points fname) = Some (matches old_ext fname)"
  by (simp add: wide_matches_def wide_lower_code_points endswith_code_points matches_def)

lemma wide_new_name_code_points:
  "wide_new_name (code_points old_ext) (code_points new_ext) (code_points fname)
     = code_points (py_drop_last (length old_ext) fname @ new_ext)"
  by (simp add: wide_new_name_def py_drop_last_def code_points_def take_map)

text \<open>
  Claim C4 says that a file is selected exactly when its name ends with the normalized
  old extension, letter case apart, and that the new name is the name without its
  extension, followed by the new extension. The code attempts this with
  \<^verbatim>\<open>fname.lower().endswith(old_ext)\<close> and \<^verbatim>\<open>fname[:-len(old_ext)]\<close>, which compares
  lower-cased strings and then cuts the original name by the length of a lower-cased one.
  Beyond Latin-1 the two are not the same. For the old extension U+03A3 (capital sigma)
  the normalized extension is a dot and U+03C3; the file name \<^verbatim>\<open>AB.\<close> followed by U+03A3
  ends with a dot and that very letter, yet its lower-cased form ends with the final sigma
  U+03C2 and the file is not selected. For the old extension U+0130 (capital I with dot
  above) the normalized extension has three code points, a dot, \<^verbatim>\<open>i\<close> and U+0307; the file
  name \<^verbatim>\<open>a.\<close> followed by U+0130 is selected, three code points are cut from a name whose
  extension has two, and the new name for the new extension \<^verbatim>\<open>.n\<close> is \<^verbatim>\<open>.n\<close>: the base
  name \<^verbatim>\<open>a\<close> is lost. The name of a dot followed by U+0130 is selected too and is shorter
  than the extension that is to be cut from it.
\<close>

theorem selection_breaks_beyond_latin1:
  "wide_normalize_ext [0x3A3] = Some [0x2E, 0x3C3]
   \<and> endswith [0x41, 0x42, 0x2E, 0x3A3] ([0x2E] @ [0x3A3 :: nat])
   \<and> wide_lower [0x41, 0x42, 0x2E, 0x3A3] = Some [0x61, 0x62, 0x2E, 0x3C2]
   \<and> wide_matches [0x2E, 0x3C3] [0x41, 0x42, 0x2E, 0x3A3] = Some False
   \<and> wide_normalize_ext [0x130] = Some [0x2E, 0x69, 0x307]
   \<and> wide_matches [0x2E, 0x69, 0x307] [0x61, 0x2E, 0x130] = Some True
   \<and> wide_new_name [0x2E, 0x69, 0x307] [0x2E, 0x6E] [0x61, 0x2E, 0x130] = [0x2E, 0x6E]
   \<and> wide_matches [0x2E, 0x69, 0x307] [0x2E, 0x130] = Some True
   \<and> length [0x2E, 0x130 :: nat] < length [0x2E, 0x69, 0x307 :: nat]"
  by code_simp

subsection \<open>Paths and the folding of names\<close>

lemma lower_char_eq_nonletter:
  assumes "(of_char x :: nat) < 65 \<or> (90 < (of_char x :: nat) \<and> (of_char x :: nat) < 97)"
  shows "(lower_char c = x) = (c = x)"
proof -
  have "(lower_char c = x) = ((of_char (lower_char c) :: nat) = of_char x)"
    by (simp only: of_char_eq_iff)
  also have "\<dots> = ((of_char c :: nat) = of_char x)"
    using assms by (auto simp add: of_char_lower_char isupper_def Let_def)
  also have "\<dots> = (c = x)"
    by (simp only: of_char_eq_iff)
  finally show ?thesis .
qed

lemma lower_char_slash [simp]: "(lower_char c = CHR ''/'') = (c = CHR ''/'')"
  by (rule lower_char_eq_nonletter) simp

lemma lower_char_backslash [simp]: "(lower_char c = CHR 0x5C) = (c = CHR 0x5C)"
  by (rule lower_char_eq_nonletter) simp

lemma is_sep_fold_char [simp]: "is_sep p (fold_char p c) = is_sep p c"
  by (cases p) (auto simp: is_sep_def fold_char_def normcase_char_def)

lemma is_sep_sep [simp]: "is_sep p (sep p)"
  by (simp add: is_sep_def sep_def)

lemma length_fskey [simp]: "length (fskey p s) = length s"
  by (simp add: fskey_def)

lemma fskey_append [simp]: "fskey p (a @ b) = fskey p a @ fskey p b"
  by (simp add: fskey_def)

lemma fskey_Nil [simp]: "fskey p [] = []" "(fskey p s = []) = (s = [])"
  by (simp_all add: fskey_def)

lemma same_file_refl [simp]: "same_file p a a"
  by (simp add: same_file_def)

lemma same_file_sym: "same_file p a b \<Longrightarrow> same_file p b a"
  by (simp add: same_file_def)

lemma same_file_trans: "same_file p a b \<Longrightarrow> same_file p b c \<Longrightarrow> same_file p a c"
  by (simp add: same_file_def)

lemma same_file_length: "same_file p a b \<Longrightarrow> length a = length b"
  unfolding same_file_def by (metis length_fskey)

lemma basename_fskey: "basename p (fskey p s) = fskey p (basename p s)"
  by (simp add: basename_def fskey_def rev_map takeWhile_map comp_def)

lemma basename_no_sep: "c \<in> set (basename p s) \<Longrightarrow> \<not> is_sep p c"
  unfolding basename_def by (auto dest: set_takeWhileD)

lemma lower_fold_char: "\<not> is_sep p c \<Longrightarrow> lower_char (fold_char p c) = lower_char c"
  by (cases p) (auto simp: fold_char_def normcase_char_def is_sep_def)

lemma lower_fskey: "\<forall>c\<in>set s. \<not> is_sep p c \<Longrightarrow> lower (fskey p s) = lower s"
  by (induction s) (auto simp: lower_def fskey_def lower_fold_char)

lemma same_file_basename:
  assumes "same_file p a b"
  shows "lower (basename p a) = lower (basename p b)"
proof -
  have "fskey p (basename p a) = fskey p (basename p b)"
    using assms by (simp add: same_file_def basename_fskey[symmetric])
  then have "lower (fskey p (basename p a)) = lower (fskey p (basename p b))" by simp
  then show ?thesis by (simp add: lower_fskey basename_no_sep)
qed

lemma matches_lower: "lower a = lower b \<Longrightarrow> matches e a = matches e b"
  by (simp add: matches_def)

lemma same_file_matches:
  "same_file p a b \<Longrightarrow> matches e (basename p a) = matches e (basename p b)"
  by (rule matches_lower) (rule same_file_basename)

lemma plain_hd: "plain p s \<Longrightarrow> \<not> is_sep p (hd s)"
  by (cases s) (auto simp: plain_def)

lemma join_pre: "b = [] \<or> \<not> is_sep p (hd b) \<Longrightarrow> join p a b = join_head p a @ b"
  by (auto simp: join_def join_head_def)

lemma join_suffix: "\<exists>x. join p a b = x @ b"
  by (auto simp: join_def)

lemma basename_append:
  assumes "\<forall>c\<in>set b. \<not> is_sep p c"
  shows "basename p (x @ b) = basename p x @ b"
proof -
  have "takeWhile (\<lambda>c. \<not> is_sep p c) (rev b @ rev x)
      = rev b @ takeWhile (\<lambda>c. \<not> is_sep p c) (rev x)"
    using assms by (intro takeWhile_append2) simp
  then show ?thesis by (simp add: basename_def)
qed

lemma basename_ends_sep: "x = [] \<or> is_sep p (last x) \<Longrightarrow> basename p x = []"
  by (cases x rule: rev_cases) (auto simp: basename_def)

lemma basename_append_plain:
  assumes "\<forall>c\<in>set b. \<not> is_sep p c" "x = [] \<or> is_sep p (last x)"
  shows "basename p (x @ b) = b"
  using assms by (simp add: basename_append basename_ends_sep)

lemma pre_ends: "join_head p a = [] \<or> is_sep p (last (join_head p a))"
  by (simp add: join_head_def)

lemma basename_join: "plain p f \<Longrightarrow> basename p (join p d f) = f"
  using pre_ends[of p d]
  by (simp add: join_pre plain_hd basename_append_plain plain_def list_all_iff)

lemma length_join: "plain p f \<Longrightarrow> length d < length (join p d f)"
  by (auto simp add: join_pre plain_hd join_head_def plain_def)

lemma plain_basename: "basename p k \<noteq> [] \<Longrightarrow> plain p (basename p k)"
  by (auto simp: plain_def list_all_iff basename_no_sep)

lemma normcase_posix [simp]: "p \<noteq> Windows \<Longrightarrow> normcase p a = a"
  by (induction a) (simp_all add: normcase_def normcase_char_def)

lemma fskey_Windows: "fskey Windows a = normcase Windows a"
  by (simp add: fskey_def normcase_def fold_char_def)

lemma normcase_same_file: "normcase p a = normcase p b \<Longrightarrow> same_file p a b"
  by (cases "p = Windows") (simp_all add: same_file_def fskey_Windows)

lemma same_file_join_suffix:
  assumes "same_file p q (join p d u)"
  shows "suffix (fskey p u) (fskey p q)"
proof -
  obtain x where "join p d u = x @ u" using join_suffix by blast
  then show ?thesis using assms by (auto simp: same_file_def suffix_def)
qed

subsection \<open>The store under a rename\<close>

lemma well_formed_unique: "well_formed p w = unique_keys p (fs w)"
  by (simp add: well_formed_def unique_keys_def)

lemma lookup_Some: "lookup p st x = Some (k, e) \<Longrightarrow> (k, e) \<in> set st \<and> same_file p k x"
  unfolding lookup_def by (auto simp: find_Some_iff in_set_conv_nth)

lemma lookup_None: "lookup p st x = None \<longleftrightarrow> (\<forall>(k, e)\<in>set st. \<not> same_file p k x)"
  unfolding lookup_def by (auto simp: find_None_iff)

lemma unique_keys_entry:
  assumes "unique_keys p st" "(k, e) \<in> set st" "(k', e') \<in> set st" "same_file p k k'"
  shows "k = k' \<and> e = e'"
proof -
  have "inj_on (\<lambda>(k, e). fskey p k) (set st)"
    using assms(1) by (simp add: unique_keys_def distinct_map)
  moreover have "(\<lambda>(k, e). fskey p k) (k, e) = (\<lambda>(k, e). fskey p k) (k', e')"
    using assms(4) by (simp add: same_file_def)
  ultimately have "(k, e) = (k', e')"
    using assms(2,3) by (rule inj_onD)
  then show ?thesis by simp
qed

lemma lookup_unique:
  assumes "unique_keys p st" "(k, e) \<in> set st" "same_file p k x"
  shows "lookup p st x = Some (k, e)"
proof (cases "lookup p st x")
  case None
  then show ?thesis using assms by (auto simp: lookup_None)
next
  case (Some a)
  obtain k' e' where a: "a = (k', e')" by (cases a)
  with Some have "(k', e') \<in> set st" "same_file p k' x" using lookup_Some by blast+
  then have "k = k' \<and> e = e'"
    using assms unique_keys_entry[of p st k e k' e'] by (auto simp: same_file_def)
  then show ?thesis using Some a by simp
qed

lemma os_rename_error:
  "os_rename p src dst w = (Inl e, w') \<Longrightarrow> w' = w\<lparr>trace := trace w @ [(src, dst)]\<rparr>"
  by (auto simp: os_rename_def Let_def split: option.splits prod.splits if_splits)

lemma os_rename_missing:
  "lookup p (fs w) src = None \<Longrightarrow>
     os_rename p src dst w = (Inl FileNotFoundError, w\<lparr>trace := trace w @ [(src, dst)]\<rparr>)"
  by (simp add: os_rename_def Let_def)

lemma renamed_free:
  assumes "\<forall>(j, v)\<in>set st. same_file p j dst \<longrightarrow> same_file p j k"
  shows "renamed p k dst st = map (\<lambda>(j, v). (rekey p (File c) k dst j, v)) st"
proof -
  have "filter (\<lambda>(j, v). same_file p j k \<or> \<not> same_file p j dst) st = st"
    using assms by (intro filter_True) auto
  then show ?thesis by (auto simp: renamed_def rekey_def)
qed

lemma renamed_replace:
  assumes "same_file p k' dst" "\<not> same_file p k' k"
  shows "renamed p k dst st =
     map (\<lambda>(j, v). (rekey p (File c) k dst j, v)) (filter (\<lambda>(j, v). \<not> same_file p j k') st)"
proof -
  have "\<And>j. (same_file p j k \<or> \<not> same_file p j dst) = (\<not> same_file p j k')"
    using assms by (auto simp: same_file_def)
  then show ?thesis by (simp add: renamed_def rekey_def)
qed

lemma os_rename_file_ok:
  assumes u: "unique_keys p (fs w)"
    and l: "lookup p (fs w) src = Some (k, File c)"
    and r: "os_rename p src dst w = (Inr x, w')"
  shows "w' = w\<lparr>trace := trace w @ [(src, dst)], fs := renamed p k dst (fs w)\<rparr>"
    and "\<forall>(j, v)\<in>set (fs w). same_file p j dst \<longrightarrow> same_file p j k \<or> v \<noteq> Directory"
proof -
  let ?w = "w\<lparr>trace := trace w @ [(src, dst)]\<rparr>"
  show "w' = w\<lparr>trace := trace w @ [(src, dst)], fs := renamed p k dst (fs w)\<rparr>"
  proof (cases "lookup p (fs w) dst")
    case None
    then have "\<forall>(j, v)\<in>set (fs w). same_file p j dst \<longrightarrow> same_file p j k"
      by (auto simp: lookup_None)
    from renamed_free[OF this, of c] r l None show ?thesis
      by (auto simp: os_rename_def Let_def move_def split: if_splits)
  next
    case (Some a)
    obtain k' e' where a: "a = (k', e')" by (cases a)
    from Some a have k': "(k', e') \<in> set (fs w)" "same_file p k' dst"
      using lookup_Some by blast+
    show ?thesis
    proof (cases "same_file p k' k")
      case True
      then have "\<forall>(j, v)\<in>set (fs w). same_file p j dst \<longrightarrow> same_file p j k"
        using k'(2) by (auto simp: same_file_def)
      from renamed_free[OF this, of c] r l Some a True show ?thesis
        by (auto simp: os_rename_def Let_def move_def split: if_splits)
    next
      case False
      from renamed_replace[OF k'(2) False, of "fs w" c] r l Some a False show ?thesis
        by (auto simp: os_rename_def Let_def move_def unlink_def split: if_splits)
    qed
  qed
  have "v \<noteq> Directory"
    if jv: "(j, v) \<in> set (fs w)" "same_file p j dst" "\<not> same_file p j k" for j v
  proof -
    have lj: "lookup p (fs w) dst = Some (j, v)" using u jv by (intro lookup_unique)
    with r l jv(3) show "v \<noteq> Directory"
      by (auto simp: os_rename_def Let_def split: if_splits)
  qed
  then show "\<forall>(j, v)\<in>set (fs w). same_file p j dst \<longrightarrow> same_file p j k \<or> v \<noteq> Directory"
    by blast
qed

lemma directories_renamed:
  assumes "\<forall>(j, v)\<in>set st. same_file p j k \<longrightarrow> v \<noteq> Directory"
    and "\<forall>(j, v)\<in>set st. same_file p j dst \<longrightarrow> same_file p j k \<or> v \<noteq> Directory"
  shows "filter (\<lambda>(k, e). e = Directory) (renamed p k dst st) = filter (\<lambda>(k, e). e = Directory) st"
  using assms by (induction st) (auto simp: renamed_def)

lemma keys_renamed:
  "map (\<lambda>(k, e). fskey p k) (renamed p k dst st) =
     map (\<lambda>x. if x = fskey p k then fskey p dst else x)
       (filter (\<lambda>x. x = fskey p k \<or> x \<noteq> fskey p dst) (map (\<lambda>(k, e). fskey p k) st))"
  by (induction st) (auto simp: renamed_def same_file_def)

lemma unique_keys_renamed:
  assumes "unique_keys p st"
  shows "unique_keys p (renamed p k dst st)"
proof -
  let ?xs = "filter (\<lambda>x. x = fskey p k \<or> x \<noteq> fskey p dst) (map (\<lambda>(k, e). fskey p k) st)"
  have d: "distinct ?xs" using assms by (simp add: unique_keys_def)
  have "inj_on (\<lambda>x. if x = fskey p k then fskey p dst else x) (set ?xs)"
    by (auto simp: inj_on_def)
  with d show ?thesis
    unfolding unique_keys_def keys_renamed by (simp add: distinct_map)
qed

lemma renamed_keeps:
  "(j, v) \<in> set st \<Longrightarrow> \<not> same_file p j k \<Longrightarrow> \<not> same_file p j dst
     \<Longrightarrow> (j, v) \<in> set (renamed p k dst st)"
  by (force simp: renamed_def)

lemma renamed_source: "(k, v) \<in> set st \<Longrightarrow> (dst, v) \<in> set (renamed p k dst st)"
  by (force simp: renamed_def)

lemma renamed_cases:
  "(j, v) \<in> set (renamed p k dst st) \<Longrightarrow>
     (j = dst \<and> (\<exists>j'. (j', v) \<in> set st \<and> same_file p j' k)) \<or> ((j, v) \<in> set st \<and> \<not> same_file p j k)"
  by (auto simp: renamed_def split: if_splits)

subsection \<open>The loop body and the invariant of the walk\<close>

lemma process_file_cases [consumes 1, case_names nomatch skip direct two_step_fail two_step]:
  fixes p root f oe ne w
  defines "src \<equiv> join p root f"
    and "dst \<equiv> join p root (py_drop_last (length oe) f @ ne)"
  defines "tmp \<equiv> join p (dirname p src) (uuids w (drawn w))"
  assumes pf: "process_file p oe ne root f w = (r, w')"
  obtains
    (nomatch) "\<not> matches oe f" "r = Inr ()" "w' = w"
  | (skip) "matches oe f" "os_path_exists p w dst" "normcase p src \<noteq> normcase p dst"
      "r = Inr ()" "w' = w\<lparr>stdout := stdout w @ [warn_line src]\<rparr>"
  | (direct) "matches oe f" "\<not> os_path_exists p w dst" "normcase p src \<noteq> normcase p dst"
      "os_rename p src dst w = (r, w')"
  | (two_step_fail) e where "matches oe f" "normcase p src = normcase p dst"
      "os_rename p src tmp (w\<lparr>drawn := Suc (drawn w)\<rparr>) = (Inl e, w')" "r = Inl e"
  | (two_step) w1 where "matches oe f" "normcase p src = normcase p dst"
      "os_rename p src tmp (w\<lparr>drawn := Suc (drawn w)\<rparr>) = (Inr (), w1)"
      "os_rename p tmp dst w1 = (r, w')"
proof (cases "matches oe f")
  case False
  then have "r = Inr ()" "w' = w" using pf by (simp_all add: process_file_def)
  with False show ?thesis by (rule nomatch)
next
  case m: True
  have g: "guarded_rename p src dst w = (r, w')"
    using pf m by (simp add: process_file_def Let_def src_def dst_def)
  show ?thesis
  proof (cases "normcase p src = normcase p dst")
    case False
    show ?thesis
    proof (cases "os_path_exists p w dst")
      case True
      then have "r = Inr ()" "w' = w\<lparr>stdout := stdout w @ [warn_line src]\<rparr>"
        using g False by (simp_all add: guarded_rename_def)
      with m True False show ?thesis by (rule skip)
    next
      case e: False
      then have "os_rename p src dst w = (r, w')"
        using g False by (simp add: guarded_rename_def safe_rename_def)
      with m e False show ?thesis by (rule direct)
    qed
  next
    case True
    have sr: "safe_rename p src dst w = (r, w')"
      using g True by (simp add: guarded_rename_def)
    obtain r1 w1 where s: "os_rename p src tmp (w\<lparr>drawn := Suc (drawn w)\<rparr>) = (r1, w1)"
      by (cases "os_rename p src tmp (w\<lparr>drawn := Suc (drawn w)\<rparr>)")
    have sr': "(case (r1, w1) of (Inl e, w2) \<Rightarrow> (Inl e, w2) | (Inr x, w2) \<Rightarrow> os_rename p tmp dst w2) = (r, w')"
      using sr True s unfolding tmp_def by (simp add: safe_rename_def uuid4_def Let_def)
    show ?thesis
    proof (cases r1)
      case (Inl e)
      then have "os_rename p src tmp (w\<lparr>drawn := Suc (drawn w)\<rparr>) = (Inl e, w')" "r = Inl e"
        using s sr' by auto
      with m True show ?thesis by (rule two_step_fail)
    next
      case (Inr x)
      then have "os_rename p src tmp (w\<lparr>drawn := Suc (drawn w)\<rparr>) = (Inr (), w1)"
        "os_rename p tmp dst w1 = (r, w')"
        using s sr' by auto
      with m True show ?thesis by (rule two_step)
    qed
  qed
qed

lemma stable_fs: "fs w' = fs w \<Longrightarrow> stable p D w' = stable p D w"
  by (simp add: stable_def directories_def)

lemma not_dir_file:
  assumes "stable p D w" "(k, File c) \<in> set (fs w)" "same_file p k a"
  shows "not_dir p D a"
proof -
  have False if "(k', Directory) \<in> set (fs w)" "same_file p k' a" for k'
    using unique_keys_entry[of p "fs w" k "File c" k' Directory] assms that
    by (auto simp: stable_def same_file_def)
  then show ?thesis using assms(1)
    by (auto simp: not_dir_def list_ex_iff stable_def directories_def)
qed

lemma os_rename_ok:
  assumes st: "stable p D w" and nd: "not_dir p D a"
    and r: "os_rename p a b w = (Inr x, w')"
  obtains k c where "lookup p (fs w) a = Some (k, File c)"
    and "w' = w\<lparr>trace := trace w @ [(a, b)], fs := renamed p k b (fs w)\<rparr>"
    and "\<forall>(j, v)\<in>set (fs w). same_file p j b \<longrightarrow> same_file p j k \<or> v \<noteq> Directory"
    and "(b, File c) \<in> set (fs w')"
proof -
  from r obtain k e where l: "lookup p (fs w) a = Some (k, e)"
    by (cases "lookup p (fs w) a") (auto simp: os_rename_missing)
  then have ke: "(k, e) \<in> set (fs w)" "same_file p k a" using lookup_Some by blast+
  have "e \<noteq> Directory"
    using nd ke st by (auto simp: not_dir_def list_ex_iff stable_def directories_def)
  then obtain c where e: "e = File c" by (cases e) auto
  from st have u: "unique_keys p (fs w)" by (simp add: stable_def)
  note ok = os_rename_file_ok[OF u l[unfolded e] r]
  have "(b, File c) \<in> set (fs w')"
    using ok(1) ke(1) e by (simp add: renamed_source)
  with l e ok that show ?thesis by blast
qed

lemma os_rename_stable:
  assumes st: "stable p D w" and nd: "not_dir p D a"
  shows "stable p D (snd (os_rename p a b w))"
proof (cases "os_rename p a b w")
  case (Pair r w')
  show ?thesis
  proof (cases r)
    case (Inl e)
    with Pair have "w' = w\<lparr>trace := trace w @ [(a, b)]\<rparr>" using os_rename_error by blast
    then show ?thesis using st Pair by (simp add: stable_def directories_def)
  next
    case (Inr x)
    from os_rename_ok[OF st nd Pair[unfolded Inr]] obtain k c where
      l: "lookup p (fs w) a = Some (k, File c)"
      and w': "w' = w\<lparr>trace := trace w @ [(a, b)], fs := renamed p k b (fs w)\<rparr>"
      and side: "\<forall>(j, v)\<in>set (fs w). same_file p j b \<longrightarrow> same_file p j k \<or> v \<noteq> Directory"
      by blast
    from st have u: "unique_keys p (fs w)" by (simp add: stable_def)
    from l have ke: "(k, File c) \<in> set (fs w)" using lookup_Some by blast
    have "v \<noteq> Directory" if "(j, v) \<in> set (fs w)" "same_file p j k" for j v
      using unique_keys_entry[OF u ke that(1) same_file_sym[OF that(2)]] by auto
    then have h1: "\<forall>(j, v)\<in>set (fs w). same_file p j k \<longrightarrow> v \<noteq> Directory"
      by blast
    have "directories w' = directories w"
      unfolding directories_def w' using directories_renamed[OF h1 side] by simp
    moreover have "unique_keys p (fs w')"
      unfolding w' using unique_keys_renamed[OF u] by simp
    ultimately show ?thesis using st Pair by (simp add: stable_def)
  qed
qed

lemma process_file_stable:
  assumes st: "stable p D w" and nd: "not_dir p D (join p root f)"
  shows "stable p D (snd (process_file p oe ne root f w))"
proof (cases "process_file p oe ne root f w")
  case (Pair r w')
  from Pair show ?thesis
  proof (cases rule: process_file_cases)
    case nomatch
    then show ?thesis using st Pair by simp
  next
    case skip
    then show ?thesis using st Pair by (simp add: stable_def directories_def)
  next
    case direct
    then show ?thesis using os_rename_stable[OF st nd] Pair by (metis snd_conv)
  next
    case (two_step_fail e)
    have "stable p D (w\<lparr>drawn := Suc (drawn w)\<rparr>)" using st by (simp add: stable_def directories_def)
    from os_rename_stable[OF this nd] two_step_fail Pair show ?thesis by (metis snd_conv)
  next
    case (two_step w1)
    have s0: "stable p D (w\<lparr>drawn := Suc (drawn w)\<rparr>)" using st by (simp add: stable_def directories_def)
    from os_rename_stable[OF s0 nd] two_step(3) have s1: "stable p D w1" by (metis snd_conv)
    from os_rename_ok[OF s0 nd two_step(3)] obtain c where
      "(join p (dirname p (join p root f)) (uuids w (drawn w)), File c) \<in> set (fs w1)" by blast
    from not_dir_file[OF s1 this] have "not_dir p D (join p (dirname p (join p root f)) (uuids w (drawn w)))"
      by simp
    from os_rename_stable[OF s1 this] two_step(4) Pair show ?thesis by (metis snd_conv)
  qed
qed

lemma scandir_listing_ok:
  assumes st: "stable p D w" and sc: "scandir p w d = Some (ds, files)"
  shows "listing_ok p D d files"
proof -
  have "plain p f \<and> not_dir p D (join p d f)" if "f \<in> set files" for f
  proof -
    from sc that obtain k e where ke: "(k, e) \<in> set (fs w)" "is_child p d k" "e \<noteq> Directory" "f = basename p k"
      by (auto simp: scandir_def Let_def split: if_splits)
    then obtain c where e: "e = File c" by (cases e) auto
    from ke have "plain p f" by (simp add: is_child_def plain_basename)
    moreover have "not_dir p D (join p d f)"
      using not_dir_file[OF st ke(1)[unfolded e]] ke(2,4) by (simp add: is_child_def same_file_sym)
    ultimately show ?thesis by simp
  qed
  then show ?thesis by (simp add: listing_ok_def list_all_iff)
qed

lemma os_walk_preserves_aux:
  "(\<And>w d ds files. I w \<Longrightarrow> scandir p w d = Some (ds, files) \<Longrightarrow> G d files) \<Longrightarrow>
   (\<And>w d ds files. I w \<Longrightarrow> G d files \<Longrightarrow> I (snd (body d ds files w))) \<Longrightarrow>
   I w \<Longrightarrow> os_walk n p body d w = Some (r, w') \<Longrightarrow> I w'"
  "(\<And>w d ds files. I w \<Longrightarrow> scandir p w d = Some (ds, files) \<Longrightarrow> G d files) \<Longrightarrow>
   (\<And>w d ds files. I w \<Longrightarrow> G d files \<Longrightarrow> I (snd (body d ds files w))) \<Longrightarrow>
   I w \<Longrightarrow> walk_dirs n p body d cs w = Some (r, w') \<Longrightarrow> I w'"
proof (induction n p body d w and n p body d cs w arbitrary: r w' and r w' rule: os_walk_walk_dirs.induct)
  case (1 p body d w)
  then show ?case by simp
next
  case (2 n p body d w)
  note scan = "2.prems"(1) and body = "2.prems"(2)
  show ?case
  proof (cases "scandir p w d")
    case None
    then show ?thesis using "2.prems"(3,4) by simp
  next
    case (Some a)
    obtain ds files where a: "a = (ds, files)" by (cases a)
    from "2.prems"(4) Some a obtain r1 w1 where wd: "walk_dirs n p body d ds w = Some (r1, w1)"
      by (cases "walk_dirs n p body d ds w") auto
    have I1: "I w1" using "2.IH"[OF Some a[symmetric] scan body "2.prems"(3) wd] .
    show ?thesis
    proof (cases r1)
      case (Inl e)
      then show ?thesis using "2.prems"(4) Some a wd I1 by simp
    next
      case (Inr x)
      from Some a have "scandir p w d = Some (ds, files)" by simp
      from scan[OF "2.prems"(3) this] have "G d files" .
      from body[OF I1 this, of ds] show ?thesis using "2.prems"(4) Some a wd Inr
        by auto
    qed
  qed
next
  case (3 n p body d w)
  then show ?case by simp
next
  case (4 n p body d c cs w)
  note scan = "4.prems"(1) and body = "4.prems"(2)
  from "4.prems"(4) obtain r1 w1 where ow: "os_walk n p body (join p d c) w = Some (r1, w1)"
    by (cases "os_walk n p body (join p d c) w") auto
  have I1: "I w1" using "4.IH"(1)[OF scan body "4.prems"(3) ow] .
  show ?case
  proof (cases r1)
    case (Inl e)
    then show ?thesis using "4.prems"(4) ow I1 by simp
  next
    case (Inr x)
    then have "walk_dirs n p body d cs w1 = Some (r, w')" using "4.prems"(4) ow by simp
    from "4.IH"(2)[OF ow refl Inr scan body I1 this] show ?thesis .
  qed
qed

lemma os_walk_preserves:
  assumes "\<And>w d ds files. I w \<Longrightarrow> scandir p w d = Some (ds, files) \<Longrightarrow> G d files"
      and "\<And>w d ds files. I w \<Longrightarrow> G d files \<Longrightarrow> I (snd (body d ds files w))"
      and "I w" and "os_walk n p body d w = Some (r, w')"
  shows "I w'"
  using os_walk_preserves_aux(1)[of I p G body w n d r w'] assms by blast

subsection \<open>Termination of the walk\<close>

lemma process_files_preserves:
  "(\<And>w f. I w \<Longrightarrow> f \<in> set files \<Longrightarrow> I (snd (process_file p oe ne root f w))) \<Longrightarrow>
   I w \<Longrightarrow> I (snd (process_files p oe ne root files w))"
proof (induction files arbitrary: w)
  case Nil
  then show ?case by simp
next
  case (Cons f files)
  have 1: "I (snd (process_file p oe ne root f w))" using Cons.prems by simp
  obtain r1 w1 where pf: "process_file p oe ne root f w = (r1, w1)"
    by (cases "process_file p oe ne root f w")
  with 1 have I1: "I w1" by simp
  show ?case
  proof (cases r1)
    case (Inl e)
    then show ?thesis using pf I1 by simp
  next
    case (Inr x)
    have "I (snd (process_files p oe ne root files w1))"
    proof (rule Cons.IH)
      fix w f assume "I w" "f \<in> set files"
      then show "I (snd (process_file p oe ne root f w))" using Cons.prems(1) by simp
    next
      show "I w1" by fact
    qed
    then show ?thesis using pf Inr by simp
  qed
qed

lemma walk_rename_preserves:
  assumes stab: "\<And>w. I w \<Longrightarrow> stable p D w"
    and step: "\<And>w d f. I w \<Longrightarrow> plain p f \<Longrightarrow> not_dir p D (join p d f)
        \<Longrightarrow> I (snd (process_file p oe ne d f w))"
    and "I w"
    and "os_walk n p (\<lambda>root dirs files. process_files p oe ne root files) d w = Some (r, w')"
  shows "I w'"
proof (rule os_walk_preserves[where I = I and G = "listing_ok p D", OF _ _ assms(3,4)])
  fix w d ds files
  assume "I w" "scandir p w d = Some (ds, files)"
  then show "listing_ok p D d files" using stab scandir_listing_ok by blast
next
  fix w d ds files
  assume I: "I w" and l: "listing_ok p D d files"
  show "I (snd (process_files p oe ne d files w))"
  proof (rule process_files_preserves[where I = I and files = files])
    fix w f assume "I w" "f \<in> set files"
    then show "I (snd (process_file p oe ne d f w))"
      using step l by (simp add: listing_ok_def list_all_iff)
  next
    show "I w" by fact
  qed
qed

lemma process_files_stable:
  "stable p D w \<Longrightarrow> listing_ok p D d files \<Longrightarrow> stable p D (snd (process_files p oe ne d files w))"
  by (rule process_files_preserves[where I = "stable p D" and files = files])
     (auto simp: listing_ok_def list_all_iff process_file_stable)

lemma walk_rename_stable:
  assumes "stable p D w"
    and "os_walk n p (\<lambda>root dirs files. process_files p oe ne root files) d w = Some (r, w')"
  shows "stable p D w'"
  by (rule walk_rename_preserves[where I = "stable p D", OF _ _ assms])
     (auto intro: process_file_stable)

lemma scandir_dirs_bound:
  assumes st: "stable p D w" and sc: "scandir p w d = Some (ds, files)"
    and L: "\<forall>(k, e)\<in>set D. length k \<le> L"
  shows "\<forall>c\<in>set ds. length d < length (join p d c) \<and> length (join p d c) \<le> L"
proof
  fix c assume "c \<in> set ds"
  with sc obtain k where k: "(k, Directory) \<in> set (fs w)" "is_child p d k" "c = basename p k"
    by (auto simp: scandir_def Let_def split: if_splits)
  from k(1) st have "(k, Directory) \<in> set D" by (auto simp: stable_def directories_def)
  with L have "length k \<le> L" by auto
  moreover have "length (join p d c) = length k"
    using k(2,3) by (auto simp: is_child_def dest: same_file_length)
  moreover have "length d < length (join p d c)"
    using k(2,3) by (simp add: is_child_def plain_basename length_join)
  ultimately show "length d < length (join p d c) \<and> length (join p d c) \<le> L" by simp
qed

lemma os_walk_total_aux:
  "(\<And>w d ds files. stable p D w \<Longrightarrow> listing_ok p D d files \<Longrightarrow> stable p D (snd (body d ds files w))) \<Longrightarrow>
   \<forall>(k, e)\<in>set D. length k \<le> L \<Longrightarrow> stable p D w \<Longrightarrow> length d \<le> L \<Longrightarrow> L < n + length d
     \<Longrightarrow> \<exists>r w'. os_walk n p body d w = Some (r, w')"
  "(\<And>w d ds files. stable p D w \<Longrightarrow> listing_ok p D d files \<Longrightarrow> stable p D (snd (body d ds files w))) \<Longrightarrow>
   \<forall>(k, e)\<in>set D. length k \<le> L \<Longrightarrow> stable p D w
     \<Longrightarrow> \<forall>c\<in>set cs. length d < length (join p d c) \<and> length (join p d c) \<le> L
     \<Longrightarrow> L < Suc n + length d
     \<Longrightarrow> \<exists>r w'. walk_dirs n p body d cs w = Some (r, w')"
proof (induction n p body d w and n p body d cs w rule: os_walk_walk_dirs.induct)
  case (1 p body d w)
  then show ?case by simp
next
  case (2 n p body d w)
  show ?case
  proof (cases "scandir p w d")
    case None
    then show ?thesis by simp
  next
    case (Some a)
    obtain ds files where a: "a = (ds, files)" by (cases a)
    from Some a have sc: "scandir p w d = Some (ds, files)" by simp
    note b = scandir_dirs_bound[OF "2.prems"(3) sc "2.prems"(2)]
    from "2.IH"[OF Some a[symmetric] "2.prems"(1,2,3) b] "2.prems"(5)
    obtain r1 w1 where "walk_dirs n p body d ds w = Some (r1, w1)" by auto
    then show ?thesis using sc by (cases r1) auto
  qed
next
  case (3 n p body d w)
  then show ?case by simp
next
  case (4 n p body d c cs w)
  from "4.prems"(4) have c: "length d < length (join p d c)" "length (join p d c) \<le> L" by auto
  with "4.prems"(5) have "L < n + length (join p d c)" by simp
  from "4.IH"(1)[OF "4.prems"(1,2,3) c(2) this]
  obtain r1 w1 where ow: "os_walk n p body (join p d c) w = Some (r1, w1)" by auto
  show ?case
  proof (cases r1)
    case (Inl e)
    then show ?thesis using ow by simp
  next
    case (Inr x)
    have s1: "stable p D w1"
      using os_walk_preserves_aux(1)[of "stable p D" p "listing_ok p D" body w n "join p d c" r1 w1]
        scandir_listing_ok "4.prems"(1,3) ow by blast
    from "4.prems"(4) have rest: "\<forall>c\<in>set cs. length d < length (join p d c) \<and> length (join p d c) \<le> L"
      by simp
    from "4.IH"(2)[OF ow refl Inr "4.prems"(1,2) s1 rest "4.prems"(5)]
    show ?thesis using ow Inr by simp
  qed
qed

lemma longest_path_fold:
  "m \<le> fold (\<lambda>(k, e) m. max (length k) m) st m"
  "(k, e) \<in> set st \<Longrightarrow> length k \<le> fold (\<lambda>(k, e) m. max (length k) m) st m"
proof (induction st arbitrary: m)
  case Nil
  { case 1 show ?case by simp }
  { case 2 then show ?case by simp }
next
  case (Cons a st)
  { case 1
    obtain j v where a: "a = (j, v)" by (cases a)
    have "max (length j) m \<le> fold (\<lambda>(k, e) m. max (length k) m) st (max (length j) m)"
      by (rule Cons.IH(1))
    then show ?case using a by simp }
  { case 2
    obtain j v where a: "a = (j, v)" by (cases a)
    show ?case
    proof (cases "(k, e) = a")
      case True
      have "max (length j) m \<le> fold (\<lambda>(k, e) m. max (length k) m) st (max (length j) m)"
        by (rule Cons.IH(1))
      then show ?thesis using a True by auto
    next
      case False
      with 2 have "(k, e) \<in> set st" by simp
      from Cons.IH(2)[OF this] show ?thesis using a by simp
    qed }
qed

lemma longest_path_bound: "(k, e) \<in> set (fs w) \<Longrightarrow> length k \<le> longest_path w"
  unfolding longest_path_def by (rule longest_path_fold(2))

lemma isdir_entry:
  "os_path_isdir p w d \<Longrightarrow> \<exists>k. (k, Directory) \<in> set (fs w) \<and> same_file p k d"
proof -
  assume d: "os_path_isdir p w d"
  then obtain k e where l: "lookup p (fs w) d = Some (k, e)"
    by (cases "lookup p (fs w) d") (auto simp: os_path_isdir_def)
  with d have "e = Directory" by (cases e) (auto simp: os_path_isdir_def)
  with l show ?thesis using lookup_Some by blast
qed

lemma walk_rename_total:
  assumes wf: "well_formed p w" and fuel: "longest_path w < n" and dir: "os_path_isdir p w d"
  shows "\<exists>r w'. os_walk n p (\<lambda>root dirs files. process_files p oe ne root files) d w = Some (r, w')"
proof -
  have st: "stable p (directories w) w" using wf by (simp add: stable_def well_formed_unique)
  have L: "\<forall>(k, e)\<in>set (directories w). length k \<le> longest_path w"
    by (auto simp: directories_def longest_path_bound)
  from isdir_entry[OF dir] obtain k where "(k, Directory) \<in> set (fs w)" "same_file p k d" by blast
  then have "length d \<le> longest_path w"
    using longest_path_bound same_file_length by metis
  moreover have "longest_path w < n + length d" using fuel by simp
  ultimately show ?thesis
    using os_walk_total_aux(1)[of p "directories w" "\<lambda>root dirs files. process_files p oe ne root files"
        "longest_path w" w d n] st L process_files_stable
    by blast
qed

lemma rename_extensions_total:
  assumes "well_formed p w" "longest_path w < n"
  shows "\<exists>r w'. rename_extensions n p path old_ext new_ext w = Some (r, w')"
proof (cases "os_path_isdir p w path")
  case False
  then show ?thesis by (simp add: rename_extensions_def)
next
  case True
  from walk_rename_total[OF assms True] obtain r w' where
    "os_walk n p (\<lambda>root dirs files. process_files p (normalize_ext old_ext) (normalize_ext new_ext) root files) path w = Some (r, w')"
    by blast
  then show ?thesis using True by (cases r) (simp_all add: rename_extensions_def)
qed

text \<open>More fuel never changes the result of a walk that had enough.\<close>

lemma os_walk_fuel_mono_aux:
  "os_walk n p body d w = Some r \<Longrightarrow> n \<le> m \<Longrightarrow> os_walk m p body d w = Some r"
  "walk_dirs n p body d cs w = Some r \<Longrightarrow> n \<le> m \<Longrightarrow> walk_dirs m p body d cs w = Some r"
proof (induction n p body d w and n p body d cs w arbitrary: r m and r m rule: os_walk_walk_dirs.induct)
  case (1 p body d w)
  then show ?case by simp
next
  case (2 n p body d w)
  from "2.prems"(2) obtain m' where m: "m = Suc m'" "n \<le> m'" by (cases m) auto
  show ?case
  proof (cases "scandir p w d")
    case None
    then show ?thesis using "2.prems"(1) m by simp
  next
    case (Some a)
    obtain ds files where a: "a = (ds, files)" by (cases a)
    from "2.prems"(1) Some a obtain r1 where wd: "walk_dirs n p body d ds w = Some r1"
      by (cases "walk_dirs n p body d ds w") auto
    from "2.IH"[OF Some a[symmetric] wd m(2)] have "walk_dirs m' p body d ds w = Some r1" .
    then show ?thesis using "2.prems"(1) Some a wd m(1) by simp
  qed
next
  case (3 n p body d w)
  then show ?case by simp
next
  case (4 n p body d c cs w)
  from "4.prems"(1) obtain r1 w1 where ow: "os_walk n p body (join p d c) w = Some (r1, w1)"
    by (cases "os_walk n p body (join p d c) w") auto
  from "4.IH"(1)[OF ow "4.prems"(2)] have 1: "os_walk m p body (join p d c) w = Some (r1, w1)" .
  show ?case
  proof (cases r1)
    case (Inl e)
    then have "r = (Inl e, w1)" using "4.prems"(1) ow by simp
    then show ?thesis using Inl 1 by simp
  next
    case (Inr x)
    then have "walk_dirs n p body d cs w1 = Some r" using "4.prems"(1) ow by simp
    from "4.IH"(2)[OF ow refl Inr this "4.prems"(2)] show ?thesis using 1 Inr by simp
  qed
qed

lemma rename_extensions_fuel_mono:
  assumes "rename_extensions n p path old_ext new_ext w = Some r" "n \<le> m"
  shows "rename_extensions m p path old_ext new_ext w = Some r"
proof (cases "os_path_isdir p w path")
  case False
  then show ?thesis using assms by (simp add: rename_extensions_def)
next
  case True
  let ?B = "\<lambda>root dirs files. process_files p (normalize_ext old_ext) (normalize_ext new_ext) root files"
  from assms(1) True obtain r1 where ow: "os_walk n p ?B path w = Some r1"
    by (cases "os_walk n p ?B path w") (auto simp: rename_extensions_def)
  from os_walk_fuel_mono_aux(1)[OF ow assms(2)] have "os_walk m p ?B path w = Some r1" .
  then show ?thesis using assms(1) ow True by (simp add: rename_extensions_def)
qed

subsection \<open>Files that do not match\<close>

lemma os_rename_uuids: "uuids (snd (os_rename p a b w)) = uuids w"
  by (simp add: os_rename_def move_def unlink_def Let_def split: option.splits prod.splits)

lemma untouched_refl: "(q, File c) \<in> set (fs w) \<Longrightarrow> untouched p q c w w"
  unfolding untouched_def by (auto intro: exI[of _ "[]"])

lemma untouched_print:
  assumes "untouched p q c w0 w" "\<not> same_file p s q"
  shows "untouched p q c w0 (w\<lparr>stdout := stdout w @ [warn_line s]\<rparr>)"
proof -
  from assms(1) obtain srcs where s: "stdout w = stdout w0 @ map warn_line srcs"
    "list_all (\<lambda>s. \<not> same_file p s q) srcs" by (auto simp: untouched_def)
  have "stdout w @ [warn_line s] = stdout w0 @ map warn_line (srcs @ [s])"
    "list_all (\<lambda>s. \<not> same_file p s q) (srcs @ [s])"
    using s assms(2) by simp_all
  then have "\<exists>srcs'. stdout w @ [warn_line s] = stdout w0 @ map warn_line srcs'
      \<and> list_all (\<lambda>s. \<not> same_file p s q) srcs'" by blast
  then show ?thesis using assms(1) unfolding untouched_def by simp
qed

lemma untouched_draw:
  "untouched p q c w0 w \<Longrightarrow> untouched p q c w0 (w\<lparr>drawn := n\<rparr>)"
  by (simp add: untouched_def)

lemma untouched_rename:
  assumes st: "stable p D w" and nd: "not_dir p D a"
    and u: "untouched p q c w0 w"
    and a: "\<not> same_file p q a" and b: "\<not> same_file p q b"
  shows "untouched p q c w0 (snd (os_rename p a b w))"
proof -
  obtain r w' where r: "os_rename p a b w = (r, w')" by (cases "os_rename p a b w")
  from u have q: "(q, File c) \<in> set (fs w)" by (simp add: untouched_def)
  have fs': "(q, File c) \<in> set (fs w')"
  proof (cases r)
    case (Inl e)
    with r have "w' = w\<lparr>trace := trace w @ [(a, b)]\<rparr>" using os_rename_error by blast
    then show ?thesis using q by simp
  next
    case (Inr x)
    from os_rename_ok[OF st nd r[unfolded Inr]] obtain k c' where
      l: "lookup p (fs w) a = Some (k, File c')"
      and w': "w' = w\<lparr>trace := trace w @ [(a, b)], fs := renamed p k b (fs w)\<rparr>" by blast
    from l have "same_file p k a" using lookup_Some by blast
    with a have "\<not> same_file p q k" by (auto simp: same_file_def)
    from renamed_keeps[OF q this b] show ?thesis by (simp add: w')
  qed
  from u obtain calls where c: "trace w = trace w0 @ calls"
    "list_all (\<lambda>(a, b). \<not> same_file p a q \<and> \<not> same_file p b q) calls"
    by (auto simp: untouched_def)
  have t: "trace w' = trace w @ [(a, b)]" using os_rename_trace[of p a b w] r by simp
  have "trace w' = trace w0 @ (calls @ [(a, b)])"
    "list_all (\<lambda>(a, b). \<not> same_file p a q \<and> \<not> same_file p b q) (calls @ [(a, b)])"
    using c t a b by (simp_all add: same_file_def eq_commute)
  then have "\<exists>calls. trace w' = trace w0 @ calls
      \<and> list_all (\<lambda>(a, b). \<not> same_file p a q \<and> \<not> same_file p b q) calls" by blast
  moreover have "stdout w' = stdout w" using os_rename_stdout[of p a b w] r by simp
  ultimately show ?thesis using u fs' r unfolding untouched_def by simp
qed

lemma not_source:
  assumes "\<not> matches oe (basename p q)" "matches oe f" "plain p f"
  shows "\<not> same_file p q (join p d f)"
proof
  assume "same_file p q (join p d f)"
  from same_file_matches[OF this, of oe] show False
    using assms by (simp add: basename_join)
qed

lemma keeps_step:
  assumes k: "keeps p D q c w0 w" and pl: "plain p f" and nd: "not_dir p D (join p d f)"
    and nm: "\<not> matches oe (basename p q)"
    and fresh: "\<forall>i. \<not> suffix (fskey p (uuids w0 i)) (fskey p q)"
  shows "keeps p D q c w0 (snd (process_file p oe ne d f w))"
proof (cases "process_file p oe ne d f w")
  case (Pair r w')
  from k have st: "stable p D w" and uu: "uuids w = uuids w0" and un: "untouched p q c w0 w"
    by (simp_all add: keeps_def)
  from un have q: "(q, File c) \<in> set (fs w)" by (simp add: untouched_def)
  let ?src = "join p d f"
  let ?dst = "join p d (py_drop_last (length oe) f @ ne)"
  let ?tmp = "join p (dirname p ?src) (uuids w (drawn w))"
  have tmp: "\<not> same_file p q ?tmp"
    using same_file_join_suffix[of p q "dirname p ?src" "uuids w (drawn w)"] fresh uu by auto
  from Pair show ?thesis
  proof (cases rule: process_file_cases)
    case nomatch
    then show ?thesis using k Pair by simp
  next
    case skip
    from not_source[OF nm skip(1) pl, of d] have "\<not> same_file p ?src q"
      using same_file_sym by blast
    from untouched_print[OF un this] show ?thesis
      using skip st uu Pair by (simp add: keeps_def stable_def directories_def)
  next
    case direct
    from direct(2) q have b: "\<not> same_file p q ?dst"
      by (auto simp: os_path_exists_def lookup_None)
    from untouched_rename[OF st nd un not_source[OF nm direct(1) pl] b]
      os_rename_stable[OF st nd, of ?dst] os_rename_uuids[of p ?src ?dst w]
    show ?thesis using direct(4) uu Pair by (simp add: keeps_def)
  next
    case (two_step_fail e)
    let ?w = "w\<lparr>drawn := Suc (drawn w)\<rparr>"
    have s0: "stable p D ?w" using st by (simp add: stable_def directories_def)
    from untouched_rename[OF s0 nd untouched_draw[OF un] not_source[OF nm two_step_fail(1) pl] tmp]
      os_rename_stable[OF s0 nd, of ?tmp] os_rename_uuids[of p ?src ?tmp ?w]
    show ?thesis using two_step_fail(3) uu Pair by (simp add: keeps_def)
  next
    case (two_step w1)
    let ?w = "w\<lparr>drawn := Suc (drawn w)\<rparr>"
    have s0: "stable p D ?w" using st by (simp add: stable_def directories_def)
    note ns = not_source[OF nm two_step(1) pl, of d]
    from untouched_rename[OF s0 nd untouched_draw[OF un] ns tmp] two_step(3)
    have u1: "untouched p q c w0 w1" by (metis snd_conv)
    from os_rename_stable[OF s0 nd, of ?tmp] two_step(3) have s1: "stable p D w1" by (metis snd_conv)
    from os_rename_uuids[of p ?src ?tmp ?w] two_step(3) have uu1: "uuids w1 = uuids w" by simp
    from os_rename_ok[OF s0 nd two_step(3)] obtain c' where "(?tmp, File c') \<in> set (fs w1)" by blast
    from not_dir_file[OF s1 this] have nd1: "not_dir p D ?tmp" by simp
    have "same_file p ?src ?dst" using two_step(2) by (rule normcase_same_file)
    with ns have b: "\<not> same_file p q ?dst"
      using same_file_trans same_file_sym by blast
    from untouched_rename[OF s1 nd1 u1 tmp b] os_rename_stable[OF s1 nd1, of ?dst]
      os_rename_uuids[of p ?tmp ?dst w1]
    show ?thesis using two_step(4) uu uu1 Pair by (simp add: keeps_def)
  qed
qed

text \<open>
  Claim C10. Take a well-formed store, fuel beyond the longest path, and a file whose
  name does not end, lower-cased, with the normalized old extension. Provided that no
  temporary name drawn from the random source is the name of that file, the call
  returns and leaves the file untouched: it is still in the store under its name with
  its contents (neither renamed nor overwritten), no \<^verbatim>\<open>os.rename\<close> call has it as
  source or destination, and no warning line is about it.
\<close>

theorem non_matching_untouched:
  assumes wf: "well_formed p w" and fuel: "longest_path w < n"
    and q: "(q, File c) \<in> set (fs w)"
    and nm: "\<not> matches (normalize_ext old_ext) (basename p q)"
    and fresh: "\<forall>i. \<not> suffix (fskey p (uuids w i)) (fskey p q)"
  shows "\<exists>r w'. rename_extensions n p path old_ext new_ext w = Some (r, w') \<and> untouched p q c w w'"
proof (cases "os_path_isdir p w path")
  case False
  then show ?thesis using q by (simp add: rename_extensions_def untouched_refl)
next
  case True
  let ?B = "\<lambda>root dirs files. process_files p (normalize_ext old_ext) (normalize_ext new_ext) root files"
  from walk_rename_total[OF wf fuel True] obtain r w' where
    ow: "os_walk n p ?B path w = Some (r, w')" by blast
  have k0: "keeps p (directories w) q c w w"
    using wf q by (simp add: keeps_def stable_def well_formed_unique untouched_refl)
  have "keeps p (directories w) q c w w'"
  proof (rule walk_rename_preserves[where I = "keeps p (directories w) q c w", OF _ _ k0 ow])
    show "\<And>w'. keeps p (directories w) q c w w' \<Longrightarrow> stable p (directories w) w'"
      by (simp add: keeps_def)
  next
    fix w' d f
    assume "keeps p (directories w) q c w w'" "plain p f" "not_dir p (directories w) (join p d f)"
    then show "keeps p (directories w) q c w
        (snd (process_file p (normalize_ext old_ext) (normalize_ext new_ext) d f w'))"
      using nm fresh by (rule keeps_step)
  qed
  then have "untouched p q c w w'" by (simp add: keeps_def)
  then show ?thesis using ow True by (cases r) (simp_all add: rename_extensions_def)
qed

theorem non_matching_untouched_witness:
  "well_formed Linux (fresh_world sample_tree) \<and>
   longest_path (fresh_world sample_tree) < 17 \<and>
   (''/r/doc.txt'', File ''five'') \<in> set (fs (fresh_world sample_tree)) \<and>
   \<not> matches (normalize_ext ''old'') (basename Linux ''/r/doc.txt'') \<and>
   (\<exists>r w'. rename_extensions 17 Linux ''/r'' ''old'' ''new'' (fresh_world sample_tree) = Some (r, w')
      \<and> untouched Linux ''/r/doc.txt'' ''five'' (fresh_world sample_tree) w')"
proof -
  have a: "well_formed Linux (fresh_world sample_tree)" by code_simp
  have b: "longest_path (fresh_world sample_tree) < 17" by code_simp
  have c: "(''/r/doc.txt'', File ''five'') \<in> set (fs (fresh_world sample_tree))" by code_simp
  have d: "\<not> matches (normalize_ext ''old'') (basename Linux ''/r/doc.txt'')" by code_simp
  have "\<not> endswith (fskey Linux ''/r/doc.txt'') (fskey Linux ''7f3c-tmp'')" by code_simp
  then have e: "\<forall>i. \<not> suffix (fskey Linux (uuids (fresh_world sample_tree) i)) (fskey Linux ''/r/doc.txt'')"
    by (simp add: endswith_suffix fresh_world_def)
  from non_matching_untouched [OF a b c d e, of "''/r''" "''new''"] a b c d show ?thesis by blast
qed

subsection \<open>A renamed file is not selected again\<close>

lemma basename_suffix: "suffix (basename p s) s"
proof -
  have "s = rev (dropWhile (\<lambda>c. \<not> is_sep p c) (rev s)) @ basename p s"
    unfolding basename_def
    by (metis rev_append rev_rev_ident takeWhile_dropWhile_id)
  then show ?thesis unfolding suffix_def by blast
qed

lemma lower_suffix: "suffix a b \<Longrightarrow> suffix (lower a) (lower b)"
  by (auto simp: suffix_def)

lemma new_name_no_match:
  assumes ok: "exts_ok oe ne"
  shows "\<not> matches oe (basename p (join p d (b @ ne)))"
proof
  let ?t = "basename p (join p d (b @ ne))"
  assume "matches oe ?t"
  then have m: "suffix oe (lower ?t)" by (simp add: matches_def endswith_suffix)
  from ok have ln: "lower ne = ne" and n1: "\<not> suffix oe ne" and n2: "\<not> suffix ne oe"
    by (simp_all add: exts_ok_def)
  obtain x where "join p d (b @ ne) = x @ (b @ ne)" using join_suffix by blast
  then have "suffix ne (join p d (b @ ne))" by (simp add: suffix_def)
  with basename_suffix[of p "join p d (b @ ne)"] have "suffix ?t ne \<or> suffix ne ?t"
    using suffix_same_cases by blast
  then show False
  proof
    assume "suffix ?t ne"
    then have "suffix (lower ?t) ne" using lower_suffix[of ?t ne] ln by simp
    with m have "suffix oe ne" using suffix_order.trans by blast
    with n1 show False ..
  next
    assume "suffix ne ?t"
    then have "suffix ne (lower ?t)" using lower_suffix[of ne ?t] ln by simp
    with m have "suffix oe ne \<or> suffix ne oe" using suffix_same_cases by blast
    with n1 n2 show False by blast
  qed
qed

lemma normcase_plain_lower:
  "length a = length b \<Longrightarrow> normcase p a = normcase p b \<Longrightarrow> \<forall>c\<in>set a. \<not> is_sep p c
     \<Longrightarrow> lower a = lower b"
proof (induction a b rule: list_induct2)
  case Nil
  then show ?case by simp
next
  case (Cons x xs y ys)
  from Cons.prems have h: "normcase_char p x = normcase_char p y" "\<not> is_sep p x"
    by (simp_all add: normcase_def)
  have "lower_char x = lower_char y"
  proof (cases "p = Windows")
    case True
    with h show ?thesis
      by (auto simp: normcase_char_def is_sep_def split: if_splits)
  next
    case False
    with h show ?thesis by (simp add: normcase_char_def)
  qed
  moreover have "lower xs = lower ys" using Cons by (simp add: normcase_def)
  ultimately show ?case by (simp add: lower_def)
qed

lemma length_normcase [simp]: "length (normcase p s) = length s"
  by (simp add: normcase_def)

lemma normcase_append [simp]: "normcase p (a @ b) = normcase p a @ normcase p b"
  by (simp add: normcase_def)

lemma no_two_step:
  assumes ok: "exts_ok oe ne" and m: "matches oe f" and pl: "plain p f"
  shows "normcase p (join p d f) \<noteq> normcase p (join p d (py_drop_last (length oe) f @ ne))"
proof
  let ?n = "length f - length oe"
  let ?nn = "py_drop_last (length oe) f @ ne"
  assume eq: "normcase p (join p d f) = normcase p (join p d ?nn)"
  from ok have ne: "ne \<noteq> []" "hd ne = CHR ''.''" "lower ne = ne" "\<not> suffix oe ne"
    by (simp_all add: exts_ok_def)
  from ne(4) have oe: "oe \<noteq> []" by auto
  then have base: "py_drop_last (length oe) f = take ?n f" by (simp add: py_drop_last_def)
  from m have len: "length oe \<le> length f" and tail: "drop ?n (lower f) = oe"
    by (simp_all add: matches_def endswith_def)
  have hd: "\<not> is_sep p (hd ?nn)"
  proof (cases "take ?n f = []")
    case True
    have "hd (take ?n f @ ne) = CHR ''.''" unfolding True using ne by simp
    then show ?thesis unfolding base by (simp add: is_sep_def)
  next
    case False
    then have "hd (take ?n f @ ne) = hd f" by (cases f) (auto simp: take_Cons')
    then show ?thesis using pl base by (simp add: plain_hd)
  qed
  have "join p d f = join_head p d @ f" using pl by (simp add: join_pre plain_hd)
  moreover have "join p d ?nn = join_head p d @ ?nn" using hd by (simp add: join_pre)
  ultimately have e2: "normcase p f = normcase p ?nn" using eq by simp
  then have "length f = length ?nn" by (metis length_normcase)
  then have lne: "length ne = length oe" using base len by simp
  have "lower f = lower ?nn"
    using normcase_plain_lower[OF \<open>length f = length ?nn\<close> e2] pl
    by (simp add: plain_def list_all_iff)
  then have "lower (take ?n f) @ drop ?n (lower f) = lower (take ?n f) @ ne"
    using base ne(3) by (simp add: lower_def take_map[symmetric] drop_map[symmetric])
  then have "ne = oe" using tail by simp
  with ne(4) show False by simp
qed

lemma matching_files_fs: "fs w' = fs w \<Longrightarrow> matching_files p oe w' = matching_files p oe w"
  by (simp add: matching_files_def)

lemma settled_step:
  assumes s: "settled p D oe S out w" and pl: "plain p f" and nd: "not_dir p D (join p d f)"
    and ok: "exts_ok oe ne"
  shows "settled p D oe S out (snd (process_file p oe ne d f w))"
proof (cases "process_file p oe ne d f w")
  case (Pair r w')
  from s have st: "stable p D w" and pre: "prefix out (stdout w)"
    and sub: "matching_files p oe w \<subseteq> S" by (simp_all add: settled_def)
  have st': "stable p D w'" using process_file_stable[OF st nd, of oe ne] Pair by simp
  from Pair show ?thesis
  proof (cases rule: process_file_cases)
    case nomatch
    then show ?thesis using s Pair by simp
  next
    case skip
    then show ?thesis using st' pre sub Pair
      by (simp add: settled_def matching_files_def)
  next
    case direct
    let ?dst = "join p d (py_drop_last (length oe) f @ ne)"
    have out: "stdout w' = stdout w" using os_rename_stdout[of p "join p d f" ?dst w] direct(4) by simp
    have "matching_files p oe w' \<subseteq> matching_files p oe w"
    proof (cases r)
      case (Inl e)
      with direct(4) have "w' = w\<lparr>trace := trace w @ [(join p d f, ?dst)]\<rparr>"
        using os_rename_error by blast
      then show ?thesis by (simp add: matching_files_def)
    next
      case (Inr x)
      from os_rename_ok[OF st nd direct(4)[unfolded Inr]] obtain k c where
        w': "w' = w\<lparr>trace := trace w @ [(join p d f, ?dst)], fs := renamed p k ?dst (fs w)\<rparr>"
        by blast
      show ?thesis
      proof
        fix j assume "j \<in> matching_files p oe w'"
        then obtain c' where j: "(j, File c') \<in> set (renamed p k ?dst (fs w))" "matches oe (basename p j)"
          by (auto simp: matching_files_def w')
        from renamed_cases[OF j(1)] j(2) new_name_no_match[OF ok, of p d "py_drop_last (length oe) f"]
        show "j \<in> matching_files p oe w" by (auto simp: matching_files_def)
      qed
    qed
    then show ?thesis using st' pre sub out Pair by (auto simp add: settled_def)
  next
    case (two_step_fail e)
    with no_two_step[OF ok two_step_fail(1) pl] show ?thesis by simp
  next
    case (two_step w1)
    with no_two_step[OF ok two_step(1) pl] show ?thesis by simp
  qed
qed

lemma processed_step:
  assumes st: "stable p D w" and pl: "plain p f" and nd: "not_dir p D (join p d f)"
    and ok: "exts_ok oe ne" and m: "matches oe f"
    and r: "process_file p oe ne d f w = (Inr x, w')" and out: "stdout w' = stdout w"
  shows "\<forall>j\<in>matching_files p oe w'. \<not> same_file p j (join p d f)"
  using r
proof (cases rule: process_file_cases)
  case nomatch
  with m show ?thesis by simp
next
  case skip
  with out show ?thesis by simp
next
  case direct
  let ?dst = "join p d (py_drop_last (length oe) f @ ne)"
  from os_rename_ok[OF st nd direct(4)] obtain k c where
    l: "lookup p (fs w) (join p d f) = Some (k, File c)"
    and w': "w' = w\<lparr>trace := trace w @ [(join p d f, ?dst)], fs := renamed p k ?dst (fs w)\<rparr>"
    by blast
  from l have k: "same_file p k (join p d f)" using lookup_Some by blast
  show ?thesis
  proof
    fix j assume "j \<in> matching_files p oe w'"
    then obtain c' where j: "(j, File c') \<in> set (renamed p k ?dst (fs w))" "matches oe (basename p j)"
      by (auto simp: matching_files_def w')
    from renamed_cases[OF j(1)] j(2) new_name_no_match[OF ok, of p d "py_drop_last (length oe) f"]
    have "\<not> same_file p j k" by auto
    with k show "\<not> same_file p j (join p d f)"
      using same_file_trans same_file_sym by blast
  qed
next
  case (two_step_fail e)
  with no_two_step[OF ok m pl] show ?thesis by simp
next
  case (two_step w1)
  with no_two_step[OF ok m pl] show ?thesis by simp
qed

subsection \<open>A second walk\<close>

lemma settled_start: "stable p D w \<Longrightarrow> settled p D oe (matching_files p oe w) (stdout w) w"
  by (simp add: settled_def)

lemma settled_files:
  assumes "settled p D oe S out w" "listing_ok p D d files" "exts_ok oe ne"
  shows "settled p D oe S out (snd (process_files p oe ne d files w))"
proof (rule process_files_preserves[where I = "settled p D oe S out" and files = files])
  fix w f assume "settled p D oe S out w" "f \<in> set files"
  then show "settled p D oe S out (snd (process_file p oe ne d f w))"
    using assms(2,3) by (intro settled_step) (auto simp: listing_ok_def list_all_iff)
next
  show "settled p D oe S out w" by fact
qed

lemma settled_walk:
  assumes ok: "exts_ok oe ne" and s: "settled p D oe S out w"
  shows "os_walk n p (\<lambda>root dirs files. process_files p oe ne root files) d w = Some (r, w')
      \<Longrightarrow> settled p D oe S out w'"
    and "walk_dirs n p (\<lambda>root dirs files. process_files p oe ne root files) d cs w = Some (r, w')
      \<Longrightarrow> settled p D oe S out w'"
proof -
  have scan: "\<And>w d ds files. settled p D oe S out w \<Longrightarrow> scandir p w d = Some (ds, files)
      \<Longrightarrow> listing_ok p D d files"
    using scandir_listing_ok by (auto simp: settled_def)
  have body: "\<And>w d ds files. settled p D oe S out w \<Longrightarrow> listing_ok p D d files
      \<Longrightarrow> settled p D oe S out (snd (process_files p oe ne d files w))"
    using settled_files ok by blast
  show "os_walk n p (\<lambda>root dirs files. process_files p oe ne root files) d w = Some (r, w')
      \<Longrightarrow> settled p D oe S out w'"
    using os_walk_preserves_aux(1)[of "settled p D oe S out" p "listing_ok p D"
        "\<lambda>root dirs files. process_files p oe ne root files" w n d r w'] scan body s by blast
  show "walk_dirs n p (\<lambda>root dirs files. process_files p oe ne root files) d cs w = Some (r, w')
      \<Longrightarrow> settled p D oe S out w'"
    using os_walk_preserves_aux(2)[of "settled p D oe S out" p "listing_ok p D"
        "\<lambda>root dirs files. process_files p oe ne root files" w n d cs r w'] scan body s by blast
qed

lemma prefix_squeeze: "prefix a b \<Longrightarrow> prefix b c \<Longrightarrow> c = a \<Longrightarrow> b = a"
  by (metis prefix_order.antisym)

lemma isdir_stable:
  assumes "stable p D w"
  shows "os_path_isdir p w d = list_ex (\<lambda>(k, e). same_file p k d) D"
proof
  assume "os_path_isdir p w d"
  from isdir_entry[OF this] show "list_ex (\<lambda>(k, e). same_file p k d) D"
    using assms by (auto simp: stable_def directories_def list_ex_iff)
next
  assume "list_ex (\<lambda>(k, e). same_file p k d) D"
  then obtain k where k: "(k, Directory) \<in> set (fs w)" "same_file p k d"
    using assms by (auto simp: stable_def directories_def list_ex_iff)
  from assms have "unique_keys p (fs w)" by (simp add: stable_def)
  from lookup_unique[OF this k] show "os_path_isdir p w d" by (simp add: os_path_isdir_def)
qed

lemma filter_swap: "filter P (filter Q xs) = filter Q (filter P xs)"
  by (induction xs) auto

lemma scandir_dirs:
  assumes "stable p D w" "scandir p w d = Some (ds, files)"
  shows "ds = map (\<lambda>(k, e). basename p k) (filter (\<lambda>(k, e). is_child p d k) D)"
proof -
  have "filter (\<lambda>(k, e). e = Directory) (filter (\<lambda>(k, e). is_child p d k) (fs w))
      = filter (\<lambda>(k, e). is_child p d k) (filter (\<lambda>(k, e). e = Directory) (fs w))"
    by (rule filter_swap)
  then show ?thesis using assms
    by (auto simp: scandir_def Let_def stable_def directories_def split: if_splits)
qed

lemma scandir_files:
  assumes "scandir p w d = Some (ds, files)"
  shows "f \<in> set files \<longleftrightarrow> (\<exists>k c. (k, File c) \<in> set (fs w) \<and> is_child p d k \<and> f = basename p k)"
proof
  assume "f \<in> set files"
  with assms obtain k e where "(k, e) \<in> set (fs w)" "e \<noteq> Directory" "is_child p d k" "f = basename p k"
    by (auto simp: scandir_def Let_def split: if_splits)
  then show "\<exists>k c. (k, File c) \<in> set (fs w) \<and> is_child p d k \<and> f = basename p k"
    by (cases e) auto
next
  assume "\<exists>k c. (k, File c) \<in> set (fs w) \<and> is_child p d k \<and> f = basename p k"
  then show "f \<in> set files" using assms
    by (force simp: scandir_def Let_def split: if_splits)
qed

lemma process_files_no_match:
  "\<forall>f\<in>set files. \<not> matches oe f \<Longrightarrow> process_files p oe ne d files w = (Inr (), w)"
  by (induction files) (simp_all add: process_file_def)

lemma processed_files:
  assumes ok: "exts_ok oe ne"
  shows "stable p D w \<Longrightarrow> listing_ok p D d files
    \<Longrightarrow> process_files p oe ne d files w = (Inr x, w') \<Longrightarrow> stdout w' = stdout w
    \<Longrightarrow> f \<in> set files \<Longrightarrow> matches oe f
    \<Longrightarrow> \<forall>j\<in>matching_files p oe w'. \<not> same_file p j (join p d f)"
proof (induction files arbitrary: w)
  case Nil
  then show ?case by simp
next
  case (Cons g rest)
  from Cons.prems(2) have g: "plain p g" "not_dir p D (join p d g)" and lr: "listing_ok p D d rest"
    by (simp_all add: listing_ok_def)
  obtain r1 wa where pf: "process_file p oe ne d g w = (r1, wa)"
    by (cases "process_file p oe ne d g w")
  with Cons.prems(3) obtain y where r1: "r1 = Inr y" and rest: "process_files p oe ne d rest wa = (Inr x, w')"
    by (cases r1) auto
  have sa: "settled p D oe (matching_files p oe w) (stdout w) wa"
    using settled_step[OF settled_start[OF Cons.prems(1)] g ok] pf by simp
  then have sta: "stable p D wa" and pa: "prefix (stdout w) (stdout wa)" by (simp_all add: settled_def)
  have s': "settled p D oe (matching_files p oe wa) (stdout wa) w'"
    using settled_files[OF settled_start[OF sta] lr ok] rest by simp
  then have pb: "prefix (stdout wa) (stdout w')" and sub: "matching_files p oe w' \<subseteq> matching_files p oe wa"
    by (simp_all add: settled_def)
  have outa: "stdout wa = stdout w" using prefix_squeeze[OF pa pb Cons.prems(4)] .
  show ?case
  proof (cases "f = g")
    case True
    from processed_step[OF Cons.prems(1) g ok _ pf[unfolded r1] outa] Cons.prems(6) True
    have "\<forall>j\<in>matching_files p oe wa. \<not> same_file p j (join p d f)" by simp
    with sub show ?thesis by blast
  next
    case False
    with Cons.prems(5) have "f \<in> set rest" by simp
    from Cons.IH[OF sta lr rest _ this Cons.prems(6)] Cons.prems(4) outa show ?thesis by simp
  qed
qed

lemma second_walk_aux:
  assumes idle: "\<And>d ds files w. \<forall>f\<in>set files. \<not> matches oe f \<Longrightarrow> body2 d ds files w = (Inr (), w)"
  shows "body = (\<lambda>root dirs files. process_files p oe ne root files) \<Longrightarrow> exts_ok oe ne \<Longrightarrow>
   stable p D w \<Longrightarrow> stable p D wz \<Longrightarrow> os_walk n p body d w = Some (Inr x, w1) \<Longrightarrow>
   stdout w1 = stdout w \<Longrightarrow> matching_files p oe wz \<subseteq> matching_files p oe w1 \<Longrightarrow>
   os_walk n p body2 d wz = Some (Inr (), wz)"
  and "body = (\<lambda>root dirs files. process_files p oe ne root files) \<Longrightarrow> exts_ok oe ne \<Longrightarrow>
   stable p D w \<Longrightarrow> stable p D wz \<Longrightarrow> walk_dirs n p body d cs w = Some (Inr x, w1) \<Longrightarrow>
   stdout w1 = stdout w \<Longrightarrow> matching_files p oe wz \<subseteq> matching_files p oe w1 \<Longrightarrow>
   walk_dirs n p body2 d cs wz = Some (Inr (), wz)"
proof (induction n p body d w and n p body d cs w arbitrary: x w1 and x w1 rule: os_walk_walk_dirs.induct)
  case (1 p body d w)
  then show ?case by simp
next
  case (2 n p body d w)
  note B = "2.prems"(1) and ok = "2.prems"(2) and st = "2.prems"(3) and stz = "2.prems"(4)
  show ?case
  proof (cases "scandir p w d")
    case None
    then have "\<not> os_path_isdir p w d" by (auto simp: scandir_def Let_def split: if_splits)
    then have "\<not> os_path_isdir p wz d" using isdir_stable[OF st] isdir_stable[OF stz] by simp
    then show ?thesis by (simp add: scandir_def)
  next
    case (Some a)
    obtain ds files where a: "a = (ds, files)" by (cases a)
    from Some a have sc: "scandir p w d = Some (ds, files)" by simp
    then have "os_path_isdir p w d" by (auto simp: scandir_def split: if_splits)
    then have dz: "os_path_isdir p wz d" using isdir_stable[OF st] isdir_stable[OF stz] by simp
    then obtain ds' files' where scz: "scandir p wz d = Some (ds', files')"
      by (auto simp: scandir_def Let_def)
    have ds': "ds' = ds" using scandir_dirs[OF st sc] scandir_dirs[OF stz scz] by simp
    from "2.prems"(5) sc obtain r1 wk where wd: "walk_dirs n p body d ds w = Some (r1, wk)"
      by (cases "walk_dirs n p body d ds w") auto
    with "2.prems"(5) sc obtain y where r1: "r1 = Inr y"
      and bd: "process_files p oe ne d files wk = (Inr x, w1)"
      by (cases r1) (auto simp: B)
    have sk: "settled p D oe (matching_files p oe w) (stdout w) wk"
      using settled_walk(2)[OF ok settled_start[OF st]] wd[unfolded B] by blast
    then have stk: "stable p D wk" and pk: "prefix (stdout w) (stdout wk)"
      and subk: "matching_files p oe wk \<subseteq> matching_files p oe w" by (simp_all add: settled_def)
    have lo: "listing_ok p D d files" using scandir_listing_ok[OF st sc] .
    have s1: "settled p D oe (matching_files p oe wk) (stdout wk) w1"
      using settled_files[OF settled_start[OF stk] lo ok] bd by simp
    then have p1: "prefix (stdout wk) (stdout w1)"
      and sub1: "matching_files p oe w1 \<subseteq> matching_files p oe wk" by (simp_all add: settled_def)
    have outk: "stdout wk = stdout w" using prefix_squeeze[OF pk p1 "2.prems"(6)] .
    have "matching_files p oe wz \<subseteq> matching_files p oe wk" using "2.prems"(7) sub1 by blast
    from "2.IH"[OF Some a[symmetric] B ok st stz wd[unfolded r1] outk this]
    have wdz: "walk_dirs n p body2 d ds wz = Some (Inr (), wz)" .
    have "\<not> matches oe f" if f: "f \<in> set files'" for f
    proof
      assume m: "matches oe f"
      from f scandir_files[OF scz] obtain k c where
        k: "(k, File c) \<in> set (fs wz)" "is_child p d k" "f = basename p k" by blast
      with m have "k \<in> matching_files p oe wz" by (auto simp: matching_files_def)
      with "2.prems"(7) have k1: "k \<in> matching_files p oe w1" by blast
      with sub1 subk have "k \<in> matching_files p oe w" by blast
      then obtain c' where "(k, File c') \<in> set (fs w)" by (auto simp: matching_files_def)
      with k(2,3) have "f \<in> set files" using scandir_files[OF sc] by blast
      from processed_files[OF ok stk lo bd _ this m] "2.prems"(6) outk k1
      have "\<not> same_file p k (join p d f)" by simp
      with k(2,3) show False by (simp add: is_child_def same_file_sym)
    qed
    then have "body2 d ds files' wz = (Inr (), wz)"
      by (intro idle) simp
    then show ?thesis using scz ds' wdz by simp
  qed
next
  case (3 n p body d w)
  then show ?case by simp
next
  case (4 n p body d c cs w)
  note B = "4.prems"(1) and ok = "4.prems"(2) and st = "4.prems"(3) and stz = "4.prems"(4)
  from "4.prems"(5) obtain r1 wa where ow: "os_walk n p body (join p d c) w = Some (r1, wa)"
    by (cases "os_walk n p body (join p d c) w") auto
  with "4.prems"(5) obtain y where r1: "r1 = Inr y"
    and rest: "walk_dirs n p body d cs wa = Some (Inr x, w1)"
    by (cases r1) auto
  have sa: "settled p D oe (matching_files p oe w) (stdout w) wa"
    using settled_walk(1)[OF ok settled_start[OF st]] ow[unfolded B] by blast
  then have sta: "stable p D wa" and pa: "prefix (stdout w) (stdout wa)" by (simp_all add: settled_def)
  have s1: "settled p D oe (matching_files p oe wa) (stdout wa) w1"
    using settled_walk(2)[OF ok settled_start[OF sta]] rest[unfolded B] by blast
  then have p1: "prefix (stdout wa) (stdout w1)"
    and sub1: "matching_files p oe w1 \<subseteq> matching_files p oe wa" by (simp_all add: settled_def)
  have outa: "stdout wa = stdout w" using prefix_squeeze[OF pa p1 "4.prems"(6)] .
  have "matching_files p oe wz \<subseteq> matching_files p oe wa" using "4.prems"(7) sub1 by blast
  from "4.IH"(1)[OF B ok st stz ow[unfolded r1] outa this]
  have 1: "os_walk n p body2 (join p d c) wz = Some (Inr (), wz)" .
  have "stdout w1 = stdout wa" using "4.prems"(6) outa by simp
  from "4.IH"(2)[OF ow refl r1 B ok sta stz rest this "4.prems"(7)]
  have 2: "walk_dirs n p body2 d cs wz = Some (Inr (), wz)" .
  show ?case using 1 2 by simp
qed

subsection \<open>Two runs, and the report\<close>

lemma collect_matching_idle:
  "\<forall>f\<in>set files. \<not> matches oe f \<Longrightarrow> collect_matching p oe d ds files w = (Inr (), w)"
proof -
  assume "\<forall>f\<in>set files. \<not> matches oe f"
  then have "filter (matches oe) files = []" by (simp add: filter_empty_conv)
  then show ?thesis by (simp add: collect_matching_def)
qed

lemma normalized_exts_ok:
  assumes "\<not> suffix (normalize_ext a) (normalize_ext b)" "\<not> suffix (normalize_ext b) (normalize_ext a)"
  shows "exts_ok (normalize_ext a) (normalize_ext b)"
proof -
  obtain t where "normalize_ext b = CHR ''.'' # t" "lower t = t" by (rule normalize_ext_shape)
  then show ?thesis using assms by (simp add: exts_ok_def lower_def)
qed

text \<open>
  Claim C6, as the code has it. Take a well-formed store and a pair of extensions of
  which, once normalized, neither is a suffix of the other. If a run returns normally
  and has printed no warning, then the same call on the state it leaves returns
  normally and leaves that state as it is: it calls \<^verbatim>\<open>os.rename\<close> zero times and prints
  zero warnings. And a walk of that state that prints every file selected by the old
  extension prints nothing: there is no such file left.
\<close>

theorem second_run_finds_nothing:
  assumes wf: "well_formed p w"
    and x1: "\<not> suffix (normalize_ext old_ext) (normalize_ext new_ext)"
    and x2: "\<not> suffix (normalize_ext new_ext) (normalize_ext old_ext)"
    and run: "rename_extensions n p path old_ext new_ext w = Some (Inr v, w1)"
    and quiet: "stdout w1 = stdout w"
  shows "rename_extensions n p path old_ext new_ext w1 = Some (Inr PyNone, w1)
    \<and> os_walk n p (collect_matching p (normalize_ext old_ext)) path w1 = Some (Inr (), w1)"
proof -
  let ?oe = "normalize_ext old_ext" and ?ne = "normalize_ext new_ext"
  let ?B = "\<lambda>root dirs files. process_files p ?oe ?ne root files"
  have ok: "exts_ok ?oe ?ne" using x1 x2 by (rule normalized_exts_ok)
  have st: "stable p (directories w) w" using wf by (simp add: stable_def well_formed_unique)
  from run have dir: "os_path_isdir p w path"
    by (auto simp: rename_extensions_def split: if_splits)
  with run obtain x where ow: "os_walk n p ?B path w = Some (Inr x, w1)"
    by (auto simp: rename_extensions_def Let_def split: option.splits sum.splits prod.splits)
  have st1: "stable p (directories w) w1" using walk_rename_stable[OF st ow] .
  have dir1: "os_path_isdir p w1 path" using dir isdir_stable[OF st] isdir_stable[OF st1] by simp
  have a: "os_walk n p ?B path w1 = Some (Inr (), w1)"
    by (rule second_walk_aux(1)[where ?body2.0 = ?B, OF _ refl ok st st1 ow quiet])
       (simp_all add: process_files_no_match)
  have b: "os_walk n p (collect_matching p ?oe) path w1 = Some (Inr (), w1)"
    by (rule second_walk_aux(1)[where ?body2.0 = "collect_matching p ?oe", OF _ refl ok st st1 ow quiet])
       (simp_all add: collect_matching_idle)
  from a dir1 have "rename_extensions n p path old_ext new_ext w1 = Some (Inr PyNone, w1)"
    by (simp add: rename_extensions_def)
  with b show ?thesis by simp
qed

theorem second_run_finds_nothing_witness:
  "well_formed Linux (fresh_world single_file) \<and>
   \<not> suffix (normalize_ext ''old'') (normalize_ext ''new'') \<and>
   \<not> suffix (normalize_ext ''new'') (normalize_ext ''old'') \<and>
   (\<exists>w1. rename_extensions 4 Linux ''/r'' ''old'' ''new'' (fresh_world single_file) = Some (Inr PyNone, w1)
      \<and> stdout w1 = stdout (fresh_world single_file)
      \<and> fs w1 = [(''/r'', Directory), (''/r/n.new'', File ''data'')]
      \<and> rename_extensions 4 Linux ''/r'' ''old'' ''new'' w1 = Some (Inr PyNone, w1)
      \<and> os_walk 4 Linux (collect_matching Linux (normalize_ext ''old'')) ''/r'' w1 = Some (Inr (), w1))"
proof -
  have a: "well_formed Linux (fresh_world single_file)" by code_simp
  have "\<not> endswith (normalize_ext ''new'') (normalize_ext ''old'')" by code_simp
  then have b: "\<not> suffix (normalize_ext ''old'') (normalize_ext ''new'')" by (simp add: endswith_suffix)
  have "\<not> endswith (normalize_ext ''old'') (normalize_ext ''new'')" by code_simp
  then have c: "\<not> suffix (normalize_ext ''new'') (normalize_ext ''old'')" by (simp add: endswith_suffix)
  have "observe (rename_extensions 4 Linux ''/r'' ''old'' ''new'' (fresh_world single_file)) =
      Some (Inr PyNone, [(''/r'', Directory), (''/r/n.new'', File ''data'')], [], [(''/r/n.old'', ''/r/n.new'')])"
    by code_simp
  then obtain w1 where r: "rename_extensions 4 Linux ''/r'' ''old'' ''new'' (fresh_world single_file) = Some (Inr PyNone, w1)"
    and o: "stdout w1 = []" and f: "fs w1 = [(''/r'', Directory), (''/r/n.new'', File ''data'')]"
    by (auto simp: observe_def)
  have q: "stdout w1 = stdout (fresh_world single_file)" using o by (simp add: fresh_world_def)
  from second_run_finds_nothing [OF a b c r q] a b c r q f show ?thesis by blast
qed

lemma process_file_stdout:
  "stdout (snd (process_file p oe ne root f w)) =
     stdout w @
       (if matches oe f \<and> os_path_exists p w (join p root (py_drop_last (length oe) f @ ne))
           \<and> normcase p (join p root f) \<noteq> normcase p (join p root (py_drop_last (length oe) f @ ne))
        then [warn_line (join p root f)] else [])"
proof (cases "process_file p oe ne root f w")
  case (Pair r w')
  from Pair show ?thesis
  proof (cases rule: process_file_cases)
    case nomatch
    then show ?thesis using Pair by simp
  next
    case skip
    then show ?thesis using Pair by simp
  next
    case direct
    then show ?thesis using Pair
        os_rename_stdout[of p "join p root f" "join p root (py_drop_last (length oe) f @ ne)" w]
      by simp
  next
    case (two_step_fail e)
    then show ?thesis using Pair
        os_rename_stdout[of p "join p root f" "join p (dirname p (join p root f)) (uuids w (drawn w))"
          "w\<lparr>drawn := Suc (drawn w)\<rparr>"]
      by simp
  next
    case (two_step w1)
    then show ?thesis using Pair
        os_rename_stdout[of p "join p root f" "join p (dirname p (join p root f)) (uuids w (drawn w))"
          "w\<lparr>drawn := Suc (drawn w)\<rparr>"]
        os_rename_stdout[of p "join p (dirname p (join p root f)) (uuids w (drawn w))"
          "join p root (py_drop_last (length oe) f @ ne)" w1]
      by simp
  qed
qed

lemma process_file_skip:
  "stdout (snd (process_file p oe ne root f w)) =
     stdout w @ map warn_line (if skipped p oe ne root f w then [join p root f] else [])"
proof (cases "process_file p oe ne root f w")
  case (Pair r w')
  from Pair show ?thesis
  proof (cases rule: process_file_cases)
    case nomatch
    then show ?thesis using Pair by (simp add: skipped_def)
  next
    case skip
    then show ?thesis using Pair by (simp add: skipped_def)
  next
    case direct
    then show ?thesis using Pair
        os_rename_stdout[of p "join p root f" "join p root (py_drop_last (length oe) f @ ne)" w]
        os_rename_trace[of p "join p root f" "join p root (py_drop_last (length oe) f @ ne)" w]
      by (simp add: skipped_def)
  next
    case (two_step_fail e)
    then show ?thesis using Pair
        os_rename_stdout[of p "join p root f" "join p (dirname p (join p root f)) (uuids w (drawn w))"
          "w\<lparr>drawn := Suc (drawn w)\<rparr>"]
        os_rename_trace[of p "join p root f" "join p (dirname p (join p root f)) (uuids w (drawn w))"
          "w\<lparr>drawn := Suc (drawn w)\<rparr>"]
      by (simp add: skipped_def)
  next
    case (two_step w1)
    then show ?thesis using Pair
        os_rename_stdout[of p "join p root f" "join p (dirname p (join p root f)) (uuids w (drawn w))"
          "w\<lparr>drawn := Suc (drawn w)\<rparr>"]
        os_rename_trace[of p "join p root f" "join p (dirname p (join p root f)) (uuids w (drawn w))"
          "w\<lparr>drawn := Suc (drawn w)\<rparr>"]
        os_rename_stdout[of p "join p (dirname p (join p root f)) (uuids w (drawn w))"
          "join p root (py_drop_last (length oe) f @ ne)" w1]
        os_rename_trace[of p "join p (dirname p (join p root f)) (uuids w (drawn w))"
          "join p root (py_drop_last (length oe) f @ ne)" w1]
      by (simp add: skipped_def)
  qed
qed



lemma skipped_iff:
  "skipped p oe ne root f w \<longleftrightarrow>
     matches oe f \<and> os_path_exists p w (join p root (py_drop_last (length oe) f @ ne))
       \<and> normcase p (join p root f) \<noteq> normcase p (join p root (py_drop_last (length oe) f @ ne))"
  using process_file_skip[of p oe ne root f w] process_file_stdout[of p oe ne root f w]
  by (auto split: if_splits)




text \<open>
  Claim C6 as stated fails. After a run that skipped the collision of \<^verbatim>\<open>x.old\<close> with
  \<^verbatim>\<open>x.new\<close>, the second run finds \<^verbatim>\<open>x.old\<close> again and reports the skip again. And
  when both extensions normalize to \<^verbatim>\<open>.old\<close>, every run selects \<^verbatim>\<open>n.old\<close> and renames
  it through a temporary name: two calls in the first run, two more in the second.
\<close>

theorem second_run_repeats:
  "observe (rename_extensions 4 Linux ''/r'' ''old'' ''new'' (fresh_world sample_tree)) =
     Some (Inr PyNone,
       [(''/r'', Directory), (''/r/x.old'', File ''one''), (''/r/x.new'', File ''two''),
        (''/r/a'', Directory), (''/r/a/file2.new'', File ''three''),
        (''/r/a/b'', Directory), (''/r/a/b/file1.new'', File ''four''),
        (''/r/doc.txt'', File ''five'')],
       [''[WARN] Skipping /r/x.old: target exists''],
       [(''/r/a/b/file1.old'', ''/r/a/b/file1.new''), (''/r/a/file2.OLD'', ''/r/a/file2.new'')])
   \<and> observe (rename_twice 4 Linux ''/r'' ''old'' ''new'' (fresh_world sample_tree)) =
     Some (Inr PyNone,
       [(''/r'', Directory), (''/r/x.old'', File ''one''), (''/r/x.new'', File ''two''),
        (''/r/a'', Directory), (''/r/a/file2.new'', File ''three''),
        (''/r/a/b'', Directory), (''/r/a/b/file1.new'', File ''four''),
        (''/r/doc.txt'', File ''five'')],
       [''[WARN] Skipping /r/x.old: target exists'', ''[WARN] Skipping /r/x.old: target exists''],
       [(''/r/a/b/file1.old'', ''/r/a/b/file1.new''), (''/r/a/file2.OLD'', ''/r/a/file2.new'')])
   \<and> observe (rename_extensions 4 Linux ''/r'' ''old'' ''.OLD'' (fresh_world single_file)) =
     Some (Inr PyNone, [(''/r'', Directory), (''/r/n.old'', File ''data'')], [],
       [(''/r/n.old'', ''/r/7f3c-tmp''), (''/r/7f3c-tmp'', ''/r/n.old'')])
   \<and> observe (rename_twice 4 Linux ''/r'' ''old'' ''.OLD'' (fresh_world single_file)) =
     Some (Inr PyNone, [(''/r'', Directory), (''/r/n.old'', File ''data'')], [],
       [(''/r/n.old'', ''/r/7f3c-tmp''), (''/r/7f3c-tmp'', ''/r/n.old''),
        (''/r/n.old'', ''/r/7f3c-tmp''), (''/r/7f3c-tmp'', ''/r/n.old'')])"
  by code_simp

end
